theory Spec2Isabelle
  imports Main "HOL-Library.Word"
begin

section \<open>Windows SDK vocabulary\<close>

text \<open>
  \<open>HRESULT\<close>, \<open>S_OK\<close>, \<open>S_FALSE\<close>, \<open>SUCCEEDED\<close> and \<open>FAILED\<close> come from the Windows SDK
  headers, which are not part of the repository: a result code is a signed integer, zero and
  above is success, below zero is failure.
\<close>

type_synonym HRESULT = int

definition S_OK :: HRESULT where
  "S_OK = 0"

definition S_FALSE :: HRESULT where
  "S_FALSE = 1"

definition SUCCEEDED :: "HRESULT \<Rightarrow> bool" where
  "SUCCEEDED hr = (0 \<le> hr)"

definition FAILED :: "HRESULT \<Rightarrow> bool" where
  "FAILED hr = (hr < 0)"

section \<open>The shared dispatcher and its reference count\<close>

text \<open>
  Seen from the registry, a \<open>CoThreadDispatcher\<close> that exists is an object whose worker
  thread has initialised COM with some result \<open>CoInitializer::hr\<close> and serves dispatches
  one after the other. This is the view of a caller whose calls return. Whether a call
  returns is decided by the hand-off between threads, which is the subject of later
  sections; the functions that dispatch right after an acquisition, or that release, are
  modelled there again.
\<close>

record dispatcher_object =
  com_hr :: HRESULT

text \<open>
  What the life cycle of a dispatcher does to the outside world is kept as a log:
  the start of the worker thread, \<open>CoInitializeEx\<close> and its result, the destructor's unit of
  work (\<open>running = false\<close>), \<open>CoUninitialize\<close>, the join of the worker thread, and every method
  of the spell checking API that is invoked.
\<close>

datatype event =
    ThreadStart
  | ComInit HRESULT
  | StopRequest
  | ComUninit
  | ThreadJoin
  | Backend string

text \<open>
  The three statics of the source: \<open>com_dispatcher\<close> (a \<open>unique_ptr\<close>, so possibly null),
  \<open>com_dispatcher_refcount\<close> (a \<open>uint32_t\<close>), and the log. \<open>com_dispatcher_mutex\<close> is held for
  the whole body of both functions below, so each of them is one transition.
\<close>

record registry =
  com_dispatcher :: "dispatcher_object option"
  com_dispatcher_refcount :: "32 word"
  events :: "event list"

definition initial_registry :: registry where
  "initial_registry = \<lparr>com_dispatcher = None, com_dispatcher_refcount = 0, events = []\<rparr>"

text \<open>
  Constructor: starts the thread, whose \<open>threadProc\<close> initialises COM (the result \<open>hr\<close> is
  whatever \<open>CoInitializeEx\<close> returns there) and enters its loop whatever that result is.
\<close>

definition CoThreadDispatcher_ctor :: "HRESULT \<Rightarrow> dispatcher_object \<times> event list" where
  "CoThreadDispatcher_ctor hr =
     (\<lparr>com_hr = hr\<rparr>, [ThreadStart, ComInit hr])"

text \<open>
  Destructor: dispatches \<open>running = false\<close>, which ends the loop of \<open>threadProc\<close>; leaving
  \<open>threadProc\<close> destroys the \<open>CoInitializer\<close>, which calls \<open>CoUninitialize\<close> when
  \<open>SUCCEEDED(hr)\<close>; then the thread is joined.
\<close>

definition CoThreadDispatcher_dtor :: "dispatcher_object \<Rightarrow> event list" where
  "CoThreadDispatcher_dtor d =
     [StopRequest] @ (if SUCCEEDED (com_hr d) then [ComUninit] else []) @ [ThreadJoin]"

text \<open>\<open>com_dispatcher.reset()\<close>: destroys the object held, if any.\<close>

definition reset :: "registry \<Rightarrow> registry" where
  "reset s =
     (case com_dispatcher s of
        None \<Rightarrow> s
      | Some d \<Rightarrow> s\<lparr>com_dispatcher := None, events := events s @ CoThreadDispatcher_dtor d\<rparr>)"

text \<open>
  \<open>com_dispatcher = std::make_unique<CoThreadDispatcher>()\<close>: the new object is constructed
  first, then the assignment destroys the object held before, if any.
\<close>

definition assign_new :: "HRESULT \<Rightarrow> registry \<Rightarrow> registry" where
  "assign_new hr s =
     (let (d, es) = CoThreadDispatcher_ctor hr;
          old = (case com_dispatcher s of None \<Rightarrow> [] | Some d0 \<Rightarrow> CoThreadDispatcher_dtor d0)
      in s\<lparr>com_dispatcher := Some d, events := events s @ es @ old\<rparr>)"

definition com_dispatcher_addref :: "HRESULT \<Rightarrow> registry \<Rightarrow> registry" where
  "com_dispatcher_addref hr s =
     (let s1 = (if com_dispatcher_refcount s = 0 then assign_new hr s else s)
      in s1\<lparr>com_dispatcher_refcount := com_dispatcher_refcount s1 + 1\<rparr>)"

definition com_dispatcher_release :: "registry \<Rightarrow> registry" where
  "com_dispatcher_release s =
     (let s1 = (if com_dispatcher_refcount s = 1 then reset s else s)
      in s1\<lparr>com_dispatcher_refcount := com_dispatcher_refcount s1 - 1\<rparr>)"

text \<open>The invariant of the registry: the count is positive exactly when the object exists.\<close>

definition registry_inv :: "registry \<Rightarrow> bool" where
  "registry_inv s = ((0 < com_dispatcher_refcount s) = (com_dispatcher s \<noteq> None))"

text \<open>Calls of the two functions, and sequences of them.\<close>

datatype registry_call = Acquire HRESULT | Release

fun do_call :: "registry_call \<Rightarrow> registry \<Rightarrow> registry" where
  "do_call (Acquire hr) s = com_dispatcher_addref hr s"
| "do_call Release s = com_dispatcher_release s"

text \<open>
  A call is within the range of the counter when it does not wrap it: an acquisition
  below \<open>2^32 - 1\<close>, a release above \<open>0\<close>.
\<close>

fun in_range :: "registry_call \<Rightarrow> registry \<Rightarrow> bool" where
  "in_range (Acquire hr) s = (com_dispatcher_refcount s \<noteq> - 1)"
| "in_range Release s = (com_dispatcher_refcount s \<noteq> 0)"

fun do_calls :: "registry_call list \<Rightarrow> registry \<Rightarrow> registry" where
  "do_calls [] s = s"
| "do_calls (c # cs) s = do_calls cs (do_call c s)"

fun all_in_range :: "registry_call list \<Rightarrow> registry \<Rightarrow> bool" where
  "all_in_range [] s = True"
| "all_in_range (c # cs) s = (in_range c s \<and> all_in_range cs (do_call c s))"

text \<open>The number of dispatcher constructions a log records.\<close>

definition constructions :: "registry \<Rightarrow> nat" where
  "constructions s = length (filter (\<lambda>e. e = ThreadStart) (events s))"

section \<open>Text conversion\<close>

definition kMaxWordLength :: nat where
  "kMaxWordLength = 128"

definition kMaxUTF8WordLengthInBytes :: nat where
  "kMaxUTF8WordLengthInBytes = kMaxWordLength * 4"


fun wcsnlen_s :: "(nat \<Rightarrow> 16 word) \<Rightarrow> nat \<Rightarrow> nat" where
  "wcsnlen_s str 0 = 0"
| "wcsnlen_s str (Suc n) = (if str 0 = 0 then 0 else Suc (wcsnlen_s (\<lambda>i. str (Suc i)) n))"

text \<open>
  \<open>MultiByteToWideChar\<close> and \<open>WideCharToMultiByte\<close> are Windows functions and are taken as
  parameters: what they convert the given characters to (the required length is the length
  of that). The converted text is followed by a terminating zero. \<open>make_unique\<close> throws
  rather than returning null, so the test of \<open>newString\<close> never fires and is left out.
\<close>

definition copy_utf8_to_utf16 ::
  "(8 word list \<Rightarrow> 16 word list) \<Rightarrow> (nat \<Rightarrow> 8 word) \<Rightarrow> nat \<Rightarrow> 16 word list option" where
  "copy_utf8_to_utf16 mb u8str len =
     (if len > kMaxUTF8WordLengthInBytes then None
      else Some (mb (map u8str [0..<len]) @ [0]))"

definition copy_utf16_to_utf8 ::
  "(16 word list \<Rightarrow> 8 word list) \<Rightarrow> (nat \<Rightarrow> 16 word) \<Rightarrow> nat \<Rightarrow> 8 word list option" where
  "copy_utf16_to_utf8 wc u16str len =
     (if len > kMaxWordLength then None
      else Some (wc (map u16str [0..<len]) @ [0]))"

text \<open>
  An \<open>IEnumString\<close> is the sequence of what \<open>Next\<close> yields: a result code and a string.
  \<open>Skip(1)\<close> succeeds once per entry, which gives \<open>enumCount\<close>. The function returns without
  writing its two out-parameters (\<open>None\<close>) as soon as a \<open>Next\<close> fails; an entry that is too
  long to convert becomes a null entry of the list.
\<close>

type_synonym IEnumString = "(HRESULT \<times> (nat \<Rightarrow> 16 word)) list"

fun copy_entries ::
  "(16 word list \<Rightarrow> 8 word list) \<Rightarrow> IEnumString \<Rightarrow> 8 word list option list option" where
  "copy_entries wc [] = Some []"
| "copy_entries wc ((hr, name) # rest) =
     (if FAILED hr then None
      else (case copy_entries wc rest of
              None \<Rightarrow> None
            | Some l \<Rightarrow>
                Some (copy_utf16_to_utf8 wc name (wcsnlen_s name kMaxWordLength + 1) # l)))"

definition copy_string_list_from_enumerator ::
  "(16 word list \<Rightarrow> 8 word list) \<Rightarrow> IEnumString \<Rightarrow> (8 word list option list \<times> nat) option" where
  "copy_string_list_from_enumerator wc enumerator =
     (let enumCount = length enumerator
      in map_option (\<lambda>l. (l, enumCount)) (copy_entries wc enumerator))"



section \<open>The spell checking API and the handles\<close>

text \<open>
  The COM interfaces are not part of the repository; an object is what its methods answer.
  \<open>Check\<close> gives its result code and the code of the first \<open>Next\<close> on the errors it found;
  \<open>IsSupported\<close> gives the flag it leaves in \<open>isSupported\<close> (the code ignores its result code).
\<close>

record ISpellChecker =
  Check :: "16 word list \<Rightarrow> HRESULT \<times> HRESULT"
  Suggest :: "16 word list \<Rightarrow> HRESULT \<times> IEnumString"

record ISpellCheckerFactory =
  get_SupportedLanguages :: "HRESULT \<times> IEnumString"
  IsSupported :: "16 word list \<Rightarrow> bool"
  CreateSpellChecker :: "16 word list \<Rightarrow> HRESULT \<times> ISpellChecker option"

text \<open>A \<open>ComPtr\<close> may be null. The \<open>user_data\<close> of a handle made here never is.\<close>

record ProviderUserData =
  spellCheckerFactory :: "ISpellCheckerFactory option"

record DictUserData =
  spellChecker :: "ISpellChecker option"

record EnchantProvider =
  provider_user_data :: ProviderUserData

record EnchantDict =
  dict_user_data :: DictUserData

text \<open>
  What the platform answers: \<open>CoInitializeEx\<close> on a new worker thread, \<open>CoCreateInstance\<close> of
  the factory (its result code and the pointer it stores), and the two conversions.
\<close>

record platform =
  CoInitializeEx :: HRESULT
  CoCreateInstance :: "HRESULT \<times> ISpellCheckerFactory option"
  MultiByteToWideChar :: "8 word list \<Rightarrow> 16 word list"
  WideCharToMultiByte :: "16 word list \<Rightarrow> 8 word list"

text \<open>
  \<open>com_dispatcher->dispatch(f)\<close> as its caller sees it once it has returned: the value of
  \<open>f\<close>, and in the log the methods of the API that \<open>f\<close> invoked. Without a dispatcher the
  call dereferences a null pointer, and a unit of work may itself dereference one: both are
  \<open>None\<close>.
\<close>

definition com_dispatcher_dispatch ::
  "registry \<Rightarrow> ('a \<times> event list) option \<Rightarrow> ('a \<times> registry) option" where
  "com_dispatcher_dispatch s f =
     (case com_dispatcher s of
        None \<Rightarrow> None
      | Some d \<Rightarrow>
          (case f of
             None \<Rightarrow> None
           | Some (r, es) \<Rightarrow> Some (r, s\<lparr>events := events s @ es\<rparr>)))"

section \<open>Dictionary operations\<close>

definition windows_dict_check ::
  "platform \<Rightarrow> registry \<Rightarrow> EnchantDict \<Rightarrow> (nat \<Rightarrow> 8 word) \<Rightarrow> nat \<Rightarrow> (int \<times> registry) option" where
  "windows_dict_check p s dict word len =
     com_dispatcher_dispatch s
       (case copy_utf8_to_utf16 (MultiByteToWideChar p) word len of
          None \<Rightarrow> Some (- 1, [])
        | Some utf16Word \<Rightarrow>
            (case spellChecker (dict_user_data dict) of
               None \<Rightarrow> None
             | Some sc \<Rightarrow>
                 (case Check sc utf16Word of
                    (hr, next_hr) \<Rightarrow>
                      if FAILED hr then Some (- 1, [Backend ''Check''])
                      else if next_hr = S_OK then Some (1, [Backend ''Check''])
                      else Some (0, [Backend ''Check'']))))"

text \<open>
  The result of \<open>windows_dict_suggest\<close> is the list it returns together with the count it
  stores in \<open>out_n_suggs\<close>, or \<open>None\<close> for a null pointer (and nothing stored).
\<close>

definition windows_dict_suggest ::
  "platform \<Rightarrow> registry \<Rightarrow> EnchantDict \<Rightarrow> (nat \<Rightarrow> 8 word) \<Rightarrow> nat \<Rightarrow>
     ((8 word list option list \<times> nat) option \<times> registry) option" where
  "windows_dict_suggest p s dict word len =
     com_dispatcher_dispatch s
       (case copy_utf8_to_utf16 (MultiByteToWideChar p) word len of
          None \<Rightarrow> Some (None, [])
        | Some utf16Word \<Rightarrow>
            (case spellChecker (dict_user_data dict) of
               None \<Rightarrow> None
             | Some sc \<Rightarrow>
                 (case Suggest sc utf16Word of
                    (hr, suggestionEnumerator) \<Rightarrow>
                      if FAILED hr then Some (None, [Backend ''Suggest''])
                      else if hr = S_FALSE then Some (None, [Backend ''Suggest''])
                      else Some (copy_string_list_from_enumerator (WideCharToMultiByte p)
                                   suggestionEnumerator, [Backend ''Suggest'']))))"

text \<open>A platform on which nothing can be created, for examples.\<close>

definition no_platform :: platform where
  "no_platform = \<lparr>CoInitializeEx = 0, CoCreateInstance = (- 1, None),
                    MultiByteToWideChar = (\<lambda>bs. []), WideCharToMultiByte = (\<lambda>ws. [])\<rparr>"

section \<open>The hand-off between threads\<close>

text \<open>
  The class \<open>CoThreadDispatcher\<close> itself, as a transition system: the worker thread running
  \<open>threadProc\<close>, and any number of threads each running one call of \<open>dispatch\<close>. Every thread
  has a program counter; one transition is what a thread does between two points where
  another thread can observe or block it.

  A thread is the worker or a caller with a number. A spurious wake-up of
  \<open>condition_variable::wait\<close>, which C++ permits, is a transition of its own, so that it can
  be allowed or excluded by the schedule.
\<close>

datatype actor = Worker | Caller nat | Spurious

text \<open>
  What a callable leaves in the shared state of its \<open>packaged_task\<close>: a value, an exception,
  or nothing but completion for the destructor's \<open>void\<close> callable.
\<close>

datatype ('e, 'r) outcome = Value 'r | Exception 'e | Void

text \<open>
  A callable passed by a client returns or throws and may change the state of the backend;
  it has no access to the members of the dispatcher. The only callable that has is the one of
  the destructor, \<open>[&]() { running = false; }\<close>.
\<close>

datatype ('s, 'e, 'r) callable =
    Call "'s \<Rightarrow> ('e + 'r) \<times> 's"
  | StopRunning

text \<open>
  Program points of a call of \<open>dispatch\<close>: before the lock is taken (the task and its future
  exist), with the lock, after the assignment to \<open>dispatched_function\<close>, after \<open>notify_all\<close>,
  in \<open>result.wait()\<close> with the lock released, and returned with the outcome of \<open>result.get()\<close>.
  The destructor goes on after its dispatch: \<open>join\<close> has returned, and then, back in
  \<open>com_dispatcher_release\<close>, the count is decremented.
\<close>

datatype ('e, 'r) caller_pc =
    Start | Locked | Stored | Notified | Waiting | Got "('e, 'r) outcome" | Joined | Released

text \<open>
  Program points of \<open>threadProc\<close>: started but not yet holding \<open>processing_mutex\<close>; holding
  it, before \<open>CoInitializer\<close> and \<open>running = true\<close>; at the loop condition; inside \<open>wait\<close>, the
  lock released; woken and about to take the lock again; back from \<open>wait\<close> with the lock,
  about to call \<open>dispatched_function\<close>; returned; and terminated by an exception that left
  \<open>threadProc\<close>.
\<close>

datatype worker_pc =
    Spawned | Entered | LoopTest | Blocked | Woken | Resumed | Exited | Crashed

text \<open>What has happened so far, in order.\<close>

datatype step_event =
    Setup HRESULT | Ran nat | StopRan nat | Teardown | ThreadExit | DtorReturn | CountDecrement

record ('s, 'e, 'r) client =
  pc :: "('e, 'r) caller_pc"
  task :: "('s, 'e, 'r) callable"
  future :: "('e, 'r) outcome option"

text \<open>
  The members of the class (\<open>dispatch_begin\<close> has no state beyond the worker being inside
  \<open>wait\<close>; \<open>dispatched_function\<close> is empty or the lambda that refers to the task of one
  caller), the result of \<open>CoInitializeEx\<close> held by \<open>comInit\<close>, the calls of \<open>dispatch\<close>, the
  state of the backend that callables work on, the count of the registry, and the history.
\<close>

record ('s, 'e, 'r) CoThreadDispatcher =
  running :: bool
  processing_mutex :: "actor option"
  dispatched_function :: "nat option"
  dispatch_thread :: worker_pc
  comInit :: HRESULT
  clients :: "nat \<Rightarrow> ('s, 'e, 'r) client option"
  backend :: 's
  refcount :: "32 word"
  history :: "step_event list"

text \<open>An exception that leaves \<open>threadProc\<close> ends the process: nothing moves any more.\<close>

definition terminate :: "('s, 'e, 'r) CoThreadDispatcher \<Rightarrow> ('s, 'e, 'r) CoThreadDispatcher" where
  "terminate s = s\<lparr>dispatch_thread := Crashed\<rparr>"

text \<open>
  Running the task of caller \<open>c\<close>: the callable runs on the worker thread; its value or its
  exception goes to the shared state of the future, and nothing is thrown to the worker.
\<close>

definition packaged_task ::
  "nat \<Rightarrow> ('s, 'e, 'r) client \<Rightarrow> ('s, 'e, 'r) CoThreadDispatcher \<Rightarrow>
     ('s, 'e, 'r) CoThreadDispatcher" where
  "packaged_task c cl s =
     (case task cl of
        Call f \<Rightarrow>
          (case f (backend s) of
             (res, b) \<Rightarrow>
               s\<lparr>backend := b,
                 clients := (clients s)
                   (c \<mapsto> cl\<lparr>future :=
                              Some (case res of Inl e \<Rightarrow> Exception e | Inr v \<Rightarrow> Value v)\<rparr>),
                 history := history s @ [Ran c]\<rparr>)
      | StopRunning \<Rightarrow>
          s\<lparr>running := False,
            clients := (clients s)(c \<mapsto> cl\<lparr>future := Some Void\<rparr>),
            history := history s @ [StopRan c]\<rparr>)"

text \<open>
  \<open>dispatched_function()\<close>. An empty \<open>std::function\<close> throws; so does a task that has already
  run; a task whose caller has left \<open>dispatch\<close> no longer exists. In all three cases the
  worker does not survive.
\<close>

definition invoke :: "('s, 'e, 'r) CoThreadDispatcher \<Rightarrow> ('s, 'e, 'r) CoThreadDispatcher" where
  "invoke s =
     (case dispatched_function s of
        None \<Rightarrow> terminate s
      | Some c \<Rightarrow>
          (case clients s c of
             None \<Rightarrow> terminate s
           | Some cl \<Rightarrow>
               (case pc cl of
                  Waiting \<Rightarrow>
                    (case future cl of
                       None \<Rightarrow> (packaged_task c cl s)\<lparr>dispatch_thread := LoopTest\<rparr>
                     | Some out \<Rightarrow> terminate s)
                | _ \<Rightarrow> terminate s)))"

text \<open>
  One transition of the worker. Leaving the loop destroys \<open>comInit\<close>, which calls
  \<open>CoUninitialize\<close> when \<open>SUCCEEDED(hr)\<close>, then the lock, and the thread ends.
\<close>

definition threadProc ::
  "('s, 'e, 'r) CoThreadDispatcher \<Rightarrow> ('s, 'e, 'r) CoThreadDispatcher option" where
  "threadProc s =
     (case dispatch_thread s of
        Spawned \<Rightarrow>
          (if processing_mutex s = None
           then Some (s\<lparr>processing_mutex := Some Worker, dispatch_thread := Entered\<rparr>)
           else None)
      | Entered \<Rightarrow>
          Some (s\<lparr>running := True, dispatch_thread := LoopTest,
                  history := history s @ [Setup (comInit s)]\<rparr>)
      | LoopTest \<Rightarrow>
          (if running s
           then Some (s\<lparr>processing_mutex := None, dispatch_thread := Blocked\<rparr>)
           else Some (s\<lparr>processing_mutex := None, dispatch_thread := Exited,
                       history := history s @
                         (if SUCCEEDED (comInit s) then [Teardown] else []) @ [ThreadExit]\<rparr>))
      | Blocked \<Rightarrow> None
      | Woken \<Rightarrow>
          (if processing_mutex s = None
           then Some (s\<lparr>processing_mutex := Some Worker, dispatch_thread := Resumed\<rparr>)
           else None)
      | Resumed \<Rightarrow> Some (invoke s)
      | Exited \<Rightarrow> None
      | Crashed \<Rightarrow> None)"

text \<open>\<open>notify_all\<close> wakes the worker if it is inside \<open>wait\<close> and does nothing otherwise.\<close>

definition notify_all :: "worker_pc \<Rightarrow> worker_pc" where
  "notify_all w = (case w of Blocked \<Rightarrow> Woken | _ \<Rightarrow> w)"

text \<open>
  One transition of caller \<open>c\<close>. After its dispatch the destructor waits in \<open>join\<close> for the
  worker thread to end, and \<open>com_dispatcher_release\<close> then decrements the count.
\<close>

definition dispatch ::
  "nat \<Rightarrow> ('s, 'e, 'r) CoThreadDispatcher \<Rightarrow> ('s, 'e, 'r) CoThreadDispatcher option" where
  "dispatch c s =
     (case clients s c of
        None \<Rightarrow> None
      | Some cl \<Rightarrow>
          (case pc cl of
             Start \<Rightarrow>
               (if processing_mutex s = None
                then Some (s\<lparr>processing_mutex := Some (Caller c),
                             clients := (clients s)(c \<mapsto> cl\<lparr>pc := Locked\<rparr>)\<rparr>)
                else None)
           | Locked \<Rightarrow>
               Some (s\<lparr>dispatched_function := Some c,
                       clients := (clients s)(c \<mapsto> cl\<lparr>pc := Stored\<rparr>)\<rparr>)
           | Stored \<Rightarrow>
               Some (s\<lparr>dispatch_thread := notify_all (dispatch_thread s),
                       clients := (clients s)(c \<mapsto> cl\<lparr>pc := Notified\<rparr>)\<rparr>)
           | Notified \<Rightarrow>
               Some (s\<lparr>processing_mutex := None,
                       clients := (clients s)(c \<mapsto> cl\<lparr>pc := Waiting\<rparr>)\<rparr>)
           | Waiting \<Rightarrow>
               (case future cl of
                  None \<Rightarrow> None
                | Some out \<Rightarrow> Some (s\<lparr>clients := (clients s)(c \<mapsto> cl\<lparr>pc := Got out\<rparr>)\<rparr>))
           | Got out \<Rightarrow>
               (case task cl of
                  Call f \<Rightarrow> None
                | StopRunning \<Rightarrow>
                    (case dispatch_thread s of
                       Exited \<Rightarrow>
                         Some (s\<lparr>clients := (clients s)(c \<mapsto> cl\<lparr>pc := Joined\<rparr>),
                                 history := history s @ [DtorReturn]\<rparr>)
                     | _ \<Rightarrow> None))
           | Joined \<Rightarrow>
               Some (s\<lparr>refcount := refcount s - 1,
                       clients := (clients s)(c \<mapsto> cl\<lparr>pc := Released\<rparr>),
                       history := history s @ [CountDecrement]\<rparr>)
           | Released \<Rightarrow> None))"

definition spurious_wakeup ::
  "('s, 'e, 'r) CoThreadDispatcher \<Rightarrow> ('s, 'e, 'r) CoThreadDispatcher option" where
  "spurious_wakeup s =
     (case dispatch_thread s of Blocked \<Rightarrow> Some (s\<lparr>dispatch_thread := Woken\<rparr>) | _ \<Rightarrow> None)"

text \<open>One transition of the system; \<open>None\<close> when the actor cannot move.\<close>

definition step ::
  "actor \<Rightarrow> ('s, 'e, 'r) CoThreadDispatcher \<Rightarrow> ('s, 'e, 'r) CoThreadDispatcher option" where
  "step a s =
     (case dispatch_thread s of
        Crashed \<Rightarrow> None
      | _ \<Rightarrow>
          (case a of
             Worker \<Rightarrow> threadProc s
           | Caller c \<Rightarrow> dispatch c s
           | Spurious \<Rightarrow> spurious_wakeup s))"

text \<open>A schedule is the list of actors that move, in order.\<close>

fun run ::
  "actor list \<Rightarrow> ('s, 'e, 'r) CoThreadDispatcher \<Rightarrow> ('s, 'e, 'r) CoThreadDispatcher option" where
  "run [] s = Some s"
| "run (a # as) s = (case step a s of None \<Rightarrow> None | Some s' \<Rightarrow> run as s')"

text \<open>A call of \<open>dispatch\<close> that has made its task and future and not yet taken the lock.\<close>

definition submit :: "('s, 'e, 'r) callable \<Rightarrow> ('s, 'e, 'r) client" where
  "submit w = \<lparr>pc = Start, task = w, future = None\<rparr>"

text \<open>
  The state the constructor leaves: \<open>running(false)\<close>, the thread started, nothing
  dispatched. \<open>ws\<close> gives the callables of the calls of \<open>dispatch\<close> that are going to be made.
\<close>

definition constructed ::
  "HRESULT \<Rightarrow> 's \<Rightarrow> 32 word \<Rightarrow> (nat \<Rightarrow> ('s, 'e, 'r) callable option) \<Rightarrow>
     ('s, 'e, 'r) CoThreadDispatcher" where
  "constructed hr b n ws =
     \<lparr>running = False, processing_mutex = None, dispatched_function = None,
      dispatch_thread = Spawned, comInit = hr,
      clients = (\<lambda>c. map_option submit (ws c)), backend = b, refcount = n, history = []\<rparr>"

text \<open>
  The dispatcher is idle: the worker is inside \<open>wait\<close> with \<open>running\<close> set and the lock is
  free. This is the state \<open>threadProc\<close> reaches by itself after construction, and again
  after each unit of work.
\<close>

definition idle :: "('s, 'e, 'r) CoThreadDispatcher \<Rightarrow> bool" where
  "idle s = (running s \<and> processing_mutex s = None \<and> dispatch_thread s = Blocked)"

text \<open>The states a list of actors can lead to in one transition, and in \<open>n\<close>.\<close>

definition succs ::
  "actor list \<Rightarrow> ('s, 'e, 'r) CoThreadDispatcher \<Rightarrow> ('s, 'e, 'r) CoThreadDispatcher list" where
  "succs as s = List.map_filter (\<lambda>a. step a s) as"

fun frontier ::
  "actor list \<Rightarrow> nat \<Rightarrow> ('s, 'e, 'r) CoThreadDispatcher \<Rightarrow>
     ('s, 'e, 'r) CoThreadDispatcher list" where
  "frontier as 0 s = [s]"
| "frontier as (Suc n) s = concat (map (frontier as n) (succs as s))"

text \<open>The order in which the events of a shutdown may occur.\<close>

fun rank :: "step_event \<Rightarrow> nat" where
  "rank (Setup hr) = 0"
| "rank (Ran c) = 1"
| "rank (StopRan c) = 2"
| "rank Teardown = 3"
| "rank ThreadExit = 4"
| "rank DtorReturn = 5"
| "rank CountDecrement = 6"

text \<open>\<open>a\<close> has happened before \<open>b\<close> in a history.\<close>

fun before :: "step_event \<Rightarrow> step_event \<Rightarrow> step_event list \<Rightarrow> bool" where
  "before a b [] = False"
| "before a b (x # xs) = (if x = a then b \<in> set xs else before a b xs)"

text \<open>
  Two concrete systems. In the first a single caller dispatches a callable that returns
  \<open>42\<close>. In the second two callers each dispatch a callable that returns the caller's
  number; the backend counts the units of work that have run.
\<close>

definition answer_42 :: "(unit, unit, nat) CoThreadDispatcher" where
  "answer_42 =
     constructed 0 () 1 (\<lambda>c. if c = 0 then Some (Call (\<lambda>b. (Inr 42, b))) else None)"

definition two_callers :: "(nat, unit, nat) CoThreadDispatcher" where
  "two_callers =
     constructed 0 0 1 (\<lambda>c. if c < 2 then Some (Call (\<lambda>b. (Inr c, Suc b))) else None)"

section \<open>An invariant of the hand-off\<close>

text \<open>
  What the history can contain, by the program point of the worker: nothing before
  \<open>threadProc\<close> has initialised COM; only the setup and units of work of clients while the
  loop runs; the stop request once \<open>running\<close> is cleared; the exit of the thread, after the
  teardown when COM had been initialised, only once the worker has returned.
\<close>

fun worker_ok :: "worker_pc \<Rightarrow> bool \<Rightarrow> HRESULT \<Rightarrow> step_event list \<Rightarrow> bool" where
  "worker_ok Spawned r hr h = (h = [])"
| "worker_ok Entered r hr h = (h = [])"
| "worker_ok LoopTest r hr h =
     (if r then (\<forall>e \<in> set h. rank e \<le> 1)
      else (\<forall>e \<in> set h. rank e \<le> 2) \<and> (\<exists>c. StopRan c \<in> set h))"
| "worker_ok Blocked r hr h = (r \<and> (\<forall>e \<in> set h. rank e \<le> 1))"
| "worker_ok Woken r hr h = (r \<and> (\<forall>e \<in> set h. rank e \<le> 1))"
| "worker_ok Resumed r hr h = (r \<and> (\<forall>e \<in> set h. rank e \<le> 1))"
| "worker_ok Exited r hr h =
     (\<not> r \<and> (\<exists>c. StopRan c \<in> set h) \<and> ThreadExit \<in> set h \<and>
      (SUCCEEDED hr \<longrightarrow> Teardown \<in> set h))"
| "worker_ok Crashed r hr h = (\<forall>e \<in> set h. rank e \<le> 1)"

definition worker_inv :: "('s, 'e, 'r) CoThreadDispatcher \<Rightarrow> bool" where
  "worker_inv s = worker_ok (dispatch_thread s) (running s) (comInit s) (history s)"

text \<open>
  A caller that has left \<open>dispatch\<close> has a result in its future; only the destructor goes
  beyond that, and only after its \<open>join\<close> has returned; the future of the destructor is set
  by running the stop request.
\<close>

definition client_inv ::
  "step_event list \<Rightarrow> nat \<Rightarrow> ('s, 'e, 'r) client \<Rightarrow> bool" where
  "client_inv h c cl =
     ((case pc cl of
         Got out \<Rightarrow> future cl \<noteq> None
       | Joined \<Rightarrow> future cl \<noteq> None \<and> task cl = StopRunning \<and> DtorReturn \<in> set h
       | Released \<Rightarrow> future cl \<noteq> None \<and> task cl = StopRunning \<and> DtorReturn \<in> set h
       | _ \<Rightarrow> True) \<and>
      (future cl \<noteq> None \<longrightarrow> task cl = StopRunning \<longrightarrow> StopRan c \<in> set h))"

definition clients_inv :: "('s, 'e, 'r) CoThreadDispatcher \<Rightarrow> bool" where
  "clients_inv s = (\<forall>c cl. clients s c = Some cl \<longrightarrow> client_inv (history s) c cl)"

text \<open>
  The events are in the order of their ranks; the stop request runs at most once; the count
  changes only with the decrement at the end of \<open>com_dispatcher_release\<close>.
\<close>

definition history_inv :: "32 word \<Rightarrow> ('s, 'e, 'r) CoThreadDispatcher \<Rightarrow> bool" where
  "history_inv n s =
     (sorted (map rank (history s)) \<and>
      (\<forall>c c'. StopRan c \<in> set (history s) \<longrightarrow> StopRan c' \<in> set (history s) \<longrightarrow> c = c') \<and>
      (CountDecrement \<in> set (history s) \<longrightarrow>
         (\<exists>c cl. clients s c = Some cl \<and> pc cl = Released)) \<and>
      refcount s = (if CountDecrement \<in> set (history s) then n - 1 else n))"

definition shutdown_inv :: "32 word \<Rightarrow> ('s, 'e, 'r) CoThreadDispatcher \<Rightarrow> bool" where
  "shutdown_inv n s = (worker_inv s \<and> clients_inv s \<and> history_inv n s)"

text \<open>
  Result fidelity. An outcome is one that a callable can produce: what it returns or throws
  in some state of the backend; for the stop request, completion. A call is faithful when
  its future holds nothing that its own callable cannot produce, and, once it has returned,
  it has returned what its future holds.
\<close>

definition produced :: "('s, 'e, 'r) callable \<Rightarrow> ('e, 'r) outcome \<Rightarrow> bool" where
  "produced w out =
     (case w of
        Call f \<Rightarrow> \<exists>b. out = (case fst (f b) of Inl e \<Rightarrow> Exception e | Inr v \<Rightarrow> Value v)
      | StopRunning \<Rightarrow> out = Void)"

definition faithful :: "('s, 'e, 'r) client \<Rightarrow> bool" where
  "faithful cl =
     ((case future cl of None \<Rightarrow> True | Some out \<Rightarrow> produced (task cl) out) \<and>
      (case pc cl of Got out \<Rightarrow> future cl = Some out | _ \<Rightarrow> True))"

text \<open>A dispatcher that is constructed and then only destroyed, and the schedule of that.\<close>

definition only_destroyed :: "(unit, unit, unit) CoThreadDispatcher" where
  "only_destroyed = constructed 0 () 1 (\<lambda>c. if c = 0 then Some StopRunning else None)"

definition shutdown_steps :: "actor list" where
  "shutdown_steps =
     [Caller 0, Caller 0, Caller 0, Caller 0, Worker, Worker, Worker, Caller 0, Caller 0, Caller 0]"

definition destruction :: "actor list" where
  "destruction = [Worker, Worker, Worker] @ shutdown_steps"

text \<open>A callable that throws.\<close>

definition throws_x :: "(unit, string, nat) callable" where
  "throws_x = Call (\<lambda>b. (Inl ''x'', b))"

section \<open>The provider on the hand-off\<close>

text \<open>
  The functions of the provider that call \<open>com_dispatcher->dispatch\<close>, on the transition
  system of the hand-off, where a call can fail to return. The state of the backend is the
  log of the methods of the API that have been invoked. \<open>std::make_unique\<close> throws
  \<open>std::bad_alloc\<close> when memory is exhausted; \<open>mem\<close> says whether allocations succeed.
\<close>

datatype exn = bad_alloc

text \<open>
  \<open>dispatch\<close> is a template; the lambdas of the provider instantiate it at these result
  types (\<open>Done\<close> for \<open>void\<close>).
\<close>

datatype reply =
    Provider "EnchantProvider option"
  | Dictionary "EnchantDict option"
  | Number int
  | Strings "(8 word list option list \<times> nat) option"
  | Done

type_synonym com = "(event list, exn, reply) CoThreadDispatcher"

type_synonym work = "(event list, exn, reply) callable"

text \<open>
  How a blocking call stands when a schedule ends: it has returned a value; it has thrown to
  its caller; the process has ended (\<open>std::terminate\<close>) because an exception has left the
  worker thread or a \<open>noexcept\<close> function; it waits while neither the worker nor the caller
  can move, so that only a spurious wake-up could still let it return; or it is still under
  way.
\<close>

datatype 'a completion = Returns 'a | Throws exn | Terminates | Hangs | Unfinished

text \<open>\<open>result.wait(); return result.get();\<close> as far as the schedule has let call \<open>c\<close> come.\<close>

definition result_get :: "nat \<Rightarrow> ('s, exn, reply) CoThreadDispatcher \<Rightarrow> reply completion" where
  "result_get c s =
     (case clients s c of
        None \<Rightarrow> Unfinished
      | Some cl \<Rightarrow>
          (case pc cl of
             Got out \<Rightarrow>
               (case out of Value v \<Rightarrow> Returns v | Exception e \<Rightarrow> Throws e | Void \<Rightarrow> Returns Done)
           | _ \<Rightarrow>
               if dispatch_thread s = Crashed then Terminates
               else if step Worker s = None \<and> step (Caller c) s = None then Hangs
               else Unfinished))"

text \<open>
  A whole call of \<open>dispatch\<close>, numbered \<open>c\<close>, with callable \<open>w\<close>, under the schedule \<open>\<sigma>\<close>
  (\<open>None\<close> when \<open>\<sigma>\<close> is not a schedule of the system: it moves a thread that cannot move).
\<close>

definition dispatch_call ::
  "nat \<Rightarrow> ('s, exn, reply) callable \<Rightarrow> actor list \<Rightarrow> ('s, exn, reply) CoThreadDispatcher \<Rightarrow>
     (reply completion \<times> ('s, exn, reply) CoThreadDispatcher) option" where
  "dispatch_call c w \<sigma> s =
     (case run \<sigma> (s\<lparr>clients := (clients s)(c \<mapsto> submit w)\<rparr>) of
        None \<Rightarrow> None
      | Some s' \<Rightarrow> Some (result_get c s', s'))"

text \<open>
  The dispatcher can take a call when the worker is inside \<open>wait\<close> with the lock free, or
  is on its way there, holding the lock: it has finished its setup or a unit of work.
\<close>

definition ready :: "('s, 'e, 'r) CoThreadDispatcher \<Rightarrow> bool" where
  "ready s =
     (running s \<and>
      (dispatch_thread s = Blocked \<and> processing_mutex s = None \<or>
       dispatch_thread s = LoopTest \<and> processing_mutex s = Some Worker))"

text \<open>
  The statics on the hand-off: no dispatcher and a count of \<open>0\<close> (\<open>None\<close>), or the dispatcher,
  which carries the count. \<open>com_dispatcher_addref\<close> constructs when the count is \<open>0\<close> and
  increments. A dispatcher whose count is \<open>0\<close> is a state in which the counter has
  wrapped; the model does not go on from there.
\<close>

definition com_dispatcher_addref_on :: "HRESULT \<Rightarrow> com option \<Rightarrow> com option" where
  "com_dispatcher_addref_on hr statics =
     (case statics of
        None \<Rightarrow>
          (let s = constructed hr [] 0 (\<lambda>c. None) in Some (s\<lparr>refcount := refcount s + 1\<rparr>))
      | Some s \<Rightarrow> if refcount s = 0 then None else Some (s\<lparr>refcount := refcount s + 1\<rparr>))"

text \<open>
  \<open>com_dispatcher_release\<close> on the hand-off. At a count of \<open>1\<close> it runs the destructor, whose
  transitions are those of a call of \<open>dispatch\<close> with \<open>running = false\<close> followed by the join
  and the decrement; when these are done the dispatcher is gone and the count is \<open>0\<close>
  (\<open>None\<close>). At any other count it decrements only.
\<close>

definition com_dispatcher_release_on ::
  "nat \<Rightarrow> actor list \<Rightarrow> com \<Rightarrow> (unit completion \<times> com option) option" where
  "com_dispatcher_release_on c \<sigma> s =
     (if refcount s = 1
      then (case run \<sigma> (s\<lparr>clients := (clients s)(c \<mapsto> submit StopRunning)\<rparr>) of
              None \<Rightarrow> None
            | Some s' \<Rightarrow>
                (case map_option pc (clients s' c) of
                   Some Released \<Rightarrow> Some (Returns (), None)
                 | _ \<Rightarrow>
                     if dispatch_thread s' = Crashed then Some (Terminates, Some s')
                     else if step Worker s' = None \<and> step (Caller c) s' = None
                     then Some (Hangs, Some s') else Some (Unfinished, Some s')))
      else Some (Returns (), Some (s\<lparr>refcount := refcount s - 1\<rparr>)))"

text \<open>
  The lambda of \<open>init_enchant_provider\<close>: two allocations, then \<open>CoCreateInstance\<close>, whose
  result code is not looked at; the handle holds whatever pointer it left. The lambda either
  throws or returns a handle, never null.
\<close>

definition new_provider :: "platform \<Rightarrow> bool \<Rightarrow> work" where
  "new_provider p mem =
     Call (\<lambda>b. if mem
                then (Inr (Provider (Some \<lparr>provider_user_data =
                                             \<lparr>spellCheckerFactory = snd (CoCreateInstance p)\<rparr>\<rparr>)),
                      b @ [Backend ''CoCreateInstance''])
                else (Inl bad_alloc, b))"

text \<open>
  \<open>init_enchant_provider\<close>: the acquisition, the call \<open>c\<close> of \<open>dispatch\<close> under \<open>\<sigma>\<close>, and, for
  a null result, the release (whose destructor would be call \<open>c'\<close> under \<open>\<sigma>'\<close>). The function
  is \<open>noexcept\<close>: an exception that \<open>result.get()\<close> rethrows ends the process.
\<close>

definition init_enchant_provider ::
  "platform \<Rightarrow> bool \<Rightarrow> nat \<Rightarrow> actor list \<Rightarrow> nat \<Rightarrow> actor list \<Rightarrow> com option \<Rightarrow>
     (EnchantProvider option completion \<times> com option) option" where
  "init_enchant_provider p mem c \<sigma> c' \<sigma>' statics =
     (case com_dispatcher_addref_on (CoInitializeEx p) statics of
        None \<Rightarrow> None
      | Some s0 \<Rightarrow>
          (case dispatch_call c (new_provider p mem) \<sigma> s0 of
             None \<Rightarrow> None
           | Some (r, s) \<Rightarrow>
               (case r of
                  Returns v \<Rightarrow>
                    (case v of
                       Provider newProvider \<Rightarrow>
                         (case newProvider of
                            None \<Rightarrow>
                              (case com_dispatcher_release_on c' \<sigma>' s of
                                 None \<Rightarrow> None
                               | Some (r', st) \<Rightarrow> Some (map_completion (\<lambda>u. None) r', st))
                          | Some provider \<Rightarrow> Some (Returns (Some provider), Some s))
                     | _ \<Rightarrow> None)
                | Throws e \<Rightarrow> Some (Terminates, Some s)
                | Terminates \<Rightarrow> Some (Terminates, Some s)
                | Hangs \<Rightarrow> Some (Hangs, Some s)
                | Unfinished \<Rightarrow> Some (Unfinished, Some s))))"








definition worker_first :: "nat \<Rightarrow> actor list" where
  "worker_first c =
     [Worker, Worker, Worker, Caller c, Caller c, Caller c, Caller c, Worker, Worker, Caller c]"


text \<open>
  The schedule of the lost notification: call \<open>c\<close> takes the lock, stores its task, notifies
  and unlocks before the new worker thread has taken the lock for the first time.
\<close>

definition caller_first :: "nat \<Rightarrow> actor list" where
  "caller_first c = [Caller c, Caller c, Caller c, Caller c, Worker, Worker, Worker]"

text \<open>
  A dispatcher that has just been constructed and a single call of \<open>dispatch\<close> with a
  callable that throws; the same with a second call, whose callable returns \<open>1\<close>; and the
  schedule in which the second call takes the lock between the first call's unlock and the
  woken worker's lock.
\<close>

definition raises_x :: "(unit, string, nat) CoThreadDispatcher" where
  "raises_x = constructed 0 () 1 (\<lambda>c. if c = 0 then Some throws_x else None)"

definition raises_x_and_other :: "(unit, string, nat) CoThreadDispatcher" where
  "raises_x_and_other =
     constructed 0 () 1
       (\<lambda>c. if c = 0 then Some throws_x else if c = 1 then Some (Call (\<lambda>b. (Inr 1, b))) else None)"

definition second_overtakes :: "actor list" where
  "second_overtakes =
     [Worker, Worker, Worker, Caller 0, Caller 0, Caller 0, Caller 0,
      Caller 1, Caller 1, Caller 1, Caller 1, Worker, Worker, Worker, Caller 1]"

text \<open>
  \<open>windows_provider_dispose\<close>: a call of \<open>dispatch\<close> whose lambda deletes the user data and the
  handle, then one release.
\<close>

definition dispose :: "EnchantProvider \<Rightarrow> work" where
  "dispose provider = Call (\<lambda>b. (Inr Done, b))"

definition windows_provider_dispose ::
  "EnchantProvider \<Rightarrow> nat \<Rightarrow> actor list \<Rightarrow> nat \<Rightarrow> actor list \<Rightarrow> com \<Rightarrow>
     (unit completion \<times> com option) option" where
  "windows_provider_dispose provider c \<sigma> c' \<sigma>' s =
     (case dispatch_call c (dispose provider) \<sigma> s of
        None \<Rightarrow> None
      | Some (r, s1) \<Rightarrow>
          (case r of
             Returns v \<Rightarrow> com_dispatcher_release_on c' \<sigma>' s1
           | _ \<Rightarrow> Some (map_completion (\<lambda>v. ()) r, Some s1)))"


section \<open>Properties of the registry\<close>

lemma registry_inv_initial: "registry_inv initial_registry"
  by (simp add: registry_inv_def initial_registry_def)

lemma addref_refcount:
  "com_dispatcher_refcount (com_dispatcher_addref hr s) = com_dispatcher_refcount s + 1"
  by (simp add: com_dispatcher_addref_def assign_new_def CoThreadDispatcher_ctor_def Let_def)

lemma release_refcount:
  "com_dispatcher_refcount (com_dispatcher_release s) = com_dispatcher_refcount s - 1"
  by (simp add: com_dispatcher_release_def reset_def Let_def split: option.split)

lemma addref_dispatcher:
  "com_dispatcher (com_dispatcher_addref hr s) =
     (if com_dispatcher_refcount s = 0 then Some \<lparr>com_hr = hr\<rparr>
      else com_dispatcher s)"
  by (simp add: com_dispatcher_addref_def assign_new_def CoThreadDispatcher_ctor_def Let_def)

lemma release_dispatcher:
  "com_dispatcher (com_dispatcher_release s) =
     (if com_dispatcher_refcount s = 1 then None else com_dispatcher s)"
  by (simp add: com_dispatcher_release_def reset_def Let_def split: option.split)

lemma addref_preserves_inv:
  assumes "registry_inv s" and "com_dispatcher_refcount s \<noteq> - 1"
  shows "registry_inv (com_dispatcher_addref hr s)"
proof (cases "com_dispatcher_refcount s = 0")
  case True
  then show ?thesis
    by (simp add: registry_inv_def addref_refcount addref_dispatcher)
next
  case False
  from assms(2) have "com_dispatcher_refcount s + 1 \<noteq> 0"
    by (metis add.commute add_eq_0_iff)
  with False assms(1) show ?thesis
    by (simp add: registry_inv_def addref_refcount addref_dispatcher word_gt_0)
qed

lemma release_preserves_inv:
  assumes "registry_inv s" and "com_dispatcher_refcount s \<noteq> 0"
  shows "registry_inv (com_dispatcher_release s)"
proof (cases "com_dispatcher_refcount s = 1")
  case True
  then show ?thesis
    by (simp add: registry_inv_def release_refcount release_dispatcher)
next
  case False
  then have "com_dispatcher_refcount s - 1 \<noteq> 0"
    by simp
  with False assms show ?thesis
    by (simp add: registry_inv_def release_refcount release_dispatcher word_gt_0)
qed

lemma do_call_preserves_inv:
  "registry_inv s \<Longrightarrow> in_range c s \<Longrightarrow> registry_inv (do_call c s)"
  by (cases c) (simp_all add: addref_preserves_inv release_preserves_inv)

lemma do_calls_preserve_inv:
  "registry_inv s \<Longrightarrow> all_in_range cs s \<Longrightarrow> registry_inv (do_calls cs s)"
  by (induction cs arbitrary: s) (simp_all add: do_call_preserves_inv)


lemma addref_events:
  "events (com_dispatcher_addref hr s) =
     (if com_dispatcher_refcount s = 0
      then events s @ [ThreadStart, ComInit hr] @
             (case com_dispatcher s of None \<Rightarrow> [] | Some d0 \<Rightarrow> CoThreadDispatcher_dtor d0)
      else events s)"
  by (simp add: com_dispatcher_addref_def assign_new_def CoThreadDispatcher_ctor_def Let_def)

lemma release_events:
  "events (com_dispatcher_release s) =
     (if com_dispatcher_refcount s = 1
      then events s @ (case com_dispatcher s of None \<Rightarrow> [] | Some d \<Rightarrow> CoThreadDispatcher_dtor d)
      else events s)"
  by (simp add: com_dispatcher_release_def reset_def Let_def split: option.split)

lemma no_start_in_dtor: "filter (\<lambda>e. e = ThreadStart) (CoThreadDispatcher_dtor d) = []"
  by (simp add: CoThreadDispatcher_dtor_def)

lemma addref_constructions:
  "constructions (com_dispatcher_addref hr s) =
     constructions s + (if com_dispatcher_refcount s = 0 then 1 else 0)"
  by (simp add: constructions_def addref_events no_start_in_dtor split: option.split)

lemma addref_available:
  "registry_inv s \<Longrightarrow> com_dispatcher (com_dispatcher_addref hr s) \<noteq> None"
  by (auto simp: registry_inv_def addref_dispatcher word_gt_0)

lemma addref_funpow_refcount:
  "com_dispatcher_refcount ((com_dispatcher_addref hr ^^ n) s) = com_dispatcher_refcount s + of_nat n"
  by (induction n) (simp_all add: addref_refcount)

lemma addref_funpow_constructions:
  assumes "com_dispatcher_refcount s = 0" and "n < 2 ^ 32"
  shows "constructions ((com_dispatcher_addref hr ^^ Suc n) s) = constructions s + 1"
  using assms(2)
proof (induction n)
  case 0
  with assms(1) show ?case by (simp add: addref_constructions)
next
  case (Suc n)
  then have IH: "constructions ((com_dispatcher_addref hr ^^ Suc n) s) = constructions s + 1"
    by simp
  have "com_dispatcher_refcount ((com_dispatcher_addref hr ^^ Suc n) s) = (of_nat (Suc n) :: 32 word)"
    using assms(1) by (simp only: addref_funpow_refcount) simp
  moreover from Suc.prems have "(of_nat (Suc n) :: 32 word) \<noteq> 0"
    by (intro of_nat_neq_0) simp_all
  ultimately have "com_dispatcher_refcount ((com_dispatcher_addref hr ^^ Suc n) s) \<noteq> 0"
    by simp
  then have "constructions (com_dispatcher_addref hr ((com_dispatcher_addref hr ^^ Suc n) s)) =
        constructions ((com_dispatcher_addref hr ^^ Suc n) s)"
    by (simp add: addref_constructions)
  with IH show ?case by simp
qed

lemma addref_funpow_dispatcher:
  assumes "com_dispatcher_refcount s = 0" and "n < 2 ^ 32"
  shows "com_dispatcher ((com_dispatcher_addref hr ^^ Suc n) s) = Some \<lparr>com_hr = hr\<rparr>"
  using assms(2)
proof (induction n)
  case 0
  with assms(1) show ?case by (simp add: addref_dispatcher)
next
  case (Suc n)
  then have IH: "com_dispatcher ((com_dispatcher_addref hr ^^ Suc n) s) = Some \<lparr>com_hr = hr\<rparr>"
    by simp
  have "com_dispatcher_refcount ((com_dispatcher_addref hr ^^ Suc n) s) = (of_nat (Suc n) :: 32 word)"
    using assms(1) by (simp only: addref_funpow_refcount) simp
  moreover from Suc.prems have "(of_nat (Suc n) :: 32 word) \<noteq> 0"
    by (intro of_nat_neq_0) simp_all
  ultimately have "com_dispatcher_refcount ((com_dispatcher_addref hr ^^ Suc n) s) \<noteq> 0"
    by simp
  then have "com_dispatcher (com_dispatcher_addref hr ((com_dispatcher_addref hr ^^ Suc n) s)) =
        com_dispatcher ((com_dispatcher_addref hr ^^ Suc n) s)"
    by (simp add: addref_dispatcher)
  with IH show ?case by simp
qed

section \<open>Properties of the dictionary operations\<close>

lemma dispatch_Some:
  "com_dispatcher s = Some d \<Longrightarrow>
     com_dispatcher_dispatch s (Some (r, es)) = Some (r, s\<lparr>events := events s @ es\<rparr>)"
  by (simp add: com_dispatcher_dispatch_def)

lemma copy_utf8_to_utf16_too_long:
  "kMaxUTF8WordLengthInBytes < len \<Longrightarrow> copy_utf8_to_utf16 mb u8str len = None"
  by (simp add: copy_utf8_to_utf16_def)

section \<open>Properties of the hand-off\<close>

lemmas step_defs = step_def dispatch_def threadProc_def invoke_def packaged_task_def terminate_def
  notify_all_def spurious_wakeup_def

lemma run_in_frontier:
  "run \<sigma> s = Some s' \<Longrightarrow> set \<sigma> \<subseteq> set as \<Longrightarrow> s' \<in> set (frontier as (length \<sigma>) s)"
proof (induction \<sigma> arbitrary: s)
  case Nil
  then show ?case by simp
next
  case (Cons a \<sigma>)
  from Cons.prems(1) obtain s1 where s1: "step a s = Some s1" and r: "run \<sigma> s1 = Some s'"
    by (auto split: option.splits)
  from Cons.prems(2) have "a \<in> set as" and sub: "set \<sigma> \<subseteq> set as" by auto
  from s1 \<open>a \<in> set as\<close> have "s1 \<in> set (succs as s)"
    by (force simp: succs_def List.map_filter_def)
  moreover from Cons.IH[OF r sub] have "s' \<in> set (frontier as (length \<sigma>) s1)" .
  ultimately show ?case by auto
qed

lemma run_append:
  "run (xs @ ys) s = (case run xs s of None \<Rightarrow> None | Some s' \<Rightarrow> run ys s')"
  by (induction xs arbitrary: s) (auto split: option.splits)

lemma run_bounded:
  assumes "frontier as n s0 = []" and "run \<sigma> s0 = Some s" and "set \<sigma> \<subseteq> set as"
  shows "length \<sigma> < n"
proof (rule ccontr)
  assume "\<not> length \<sigma> < n"
  then have n: "n \<le> length \<sigma>" by simp
  from run_append[of "take n \<sigma>" "drop n \<sigma>" s0] assms(2)
  obtain s1 where r: "run (take n \<sigma>) s0 = Some s1"
    by (auto split: option.splits)
  have "set (take n \<sigma>) \<subseteq> set as"
    using assms(3) by (meson set_take_subset subset_trans)
  from run_in_frontier[OF r this] n assms(1) show False by simp
qed

lemmas explore_simps = eval_nat_numeral succs_def List.map_filter_def step_defs submit_def

lemma call_explored:
  assumes "idle s0" and "clients s0 c = Some (submit (Call f))" and "f (backend s0) = (res, b')"
      and "n \<le> 8"
  shows "\<forall>s \<in> set (frontier [Worker, Caller c] n s0).
           running s \<and> dispatch_thread s \<noteq> Exited \<and> dispatch_thread s \<noteq> Crashed \<and>
           (if n = 8
            then clients s c =
                   Some \<lparr>pc = Got (case res of Inl e \<Rightarrow> Exception e | Inr v \<Rightarrow> Value v),
                         task = Call f,
                         future = Some (case res of Inl e \<Rightarrow> Exception e | Inr v \<Rightarrow> Value v)\<rparr> \<and>
                 idle s \<and> backend s = b' \<and> history s = history s0 @ [Ran c]
            else step Worker s \<noteq> None \<or> step (Caller c) s \<noteq> None)"
proof -
  have "\<forall>k \<in> set [0..<9]. \<forall>s \<in> set (frontier [Worker, Caller c] k s0).
           running s \<and> dispatch_thread s \<noteq> Exited \<and> dispatch_thread s \<noteq> Crashed \<and>
           (if k = 8
            then clients s c =
                   Some \<lparr>pc = Got (case res of Inl e \<Rightarrow> Exception e | Inr v \<Rightarrow> Value v),
                         task = Call f,
                         future = Some (case res of Inl e \<Rightarrow> Exception e | Inr v \<Rightarrow> Value v)\<rparr> \<and>
                 idle s \<and> backend s = b' \<and> history s = history s0 @ [Ran c]
            else step Worker s \<noteq> None \<or> step (Caller c) s \<noteq> None)"
    using assms(1-3) by (simp add: idle_def explore_simps)
  moreover from assms(4) have "n \<in> set [0..<9]" by simp
  ultimately show ?thesis by blast
qed

lemma call_exhausted:
  assumes "idle s0" and "clients s0 c = Some (submit (Call f))" and "f (backend s0) = (res, b')"
  shows "frontier [Worker, Caller c] 9 s0 = []"
  using assms by (simp add: idle_def explore_simps)

section \<open>The invariant holds in every run\<close>

lemma shutdown_inv_constructed: "shutdown_inv n (constructed hr b n ws)"
  by (auto simp: shutdown_inv_def worker_inv_def clients_inv_def client_inv_def history_inv_def
      constructed_def submit_def)

lemma rank_le_6: "rank e \<le> 6"
  by (cases e) simp_all

lemma rank_le_5: "e \<noteq> CountDecrement \<Longrightarrow> rank e \<le> 5"
  by (cases e) simp_all

lemma client_inv_mono:
  "client_inv h c cl \<Longrightarrow> set h \<subseteq> set h' \<Longrightarrow> client_inv h' c cl"
  by (auto simp: client_inv_def split: caller_pc.splits)

lemma client_inv_append: "client_inv h c cl \<Longrightarrow> client_inv (h @ h') c cl"
  by (rule client_inv_mono) auto

lemma clients_invD: "clients_inv s \<Longrightarrow> clients s c = Some cl \<Longrightarrow> client_inv (history s) c cl"
  by (simp add: clients_inv_def)

lemma client_inv_early:
  "client_inv h c cl \<Longrightarrow> pc' \<in> {Start, Locked, Stored, Notified, Waiting} \<Longrightarrow>
     client_inv h c (cl\<lparr>pc := pc'\<rparr>)"
  by (auto simp: client_inv_def split: caller_pc.splits)

lemma no_decrement_yet:
  assumes "clients_inv s" and "history_inv n s"
      and "clients s c = Some cl" and "future cl \<noteq> None" and "task cl = StopRunning"
      and "pc cl \<noteq> Released"
  shows "CountDecrement \<notin> set (history s)"
proof
  assume "CountDecrement \<in> set (history s)"
  with assms(2) obtain c' cl' where c': "clients s c' = Some cl'" "pc cl' = Released"
    by (auto simp: history_inv_def)
  from clients_invD[OF assms(1) c'(1)] c'(2) have "StopRan c' \<in> set (history s)"
    by (simp add: client_inv_def)
  moreover from clients_invD[OF assms(1,3)] assms(4,5) have "StopRan c \<in> set (history s)"
    by (simp add: client_inv_def)
  ultimately have "c = c'"
    using assms(2) by (auto simp: history_inv_def)
  with c' assms(3,6) show False by simp
qed

text \<open>The worker's transitions.\<close>

lemma inv_spawn:
  assumes "shutdown_inv n s" and "dispatch_thread s = Spawned"
  shows "shutdown_inv n (s\<lparr>processing_mutex := Some Worker, dispatch_thread := Entered\<rparr>)"
  using assms by (auto simp: shutdown_inv_def worker_inv_def clients_inv_def history_inv_def)

lemma inv_enter:
  assumes "shutdown_inv n s" and "dispatch_thread s = Entered"
  shows "shutdown_inv n (s\<lparr>running := True, dispatch_thread := LoopTest,
              history := history s @ [Setup (comInit s)]\<rparr>)"
proof -
  from assms have h: "history s = []"
    by (simp add: shutdown_inv_def worker_inv_def)
  from assms(1) have "\<forall>c cl. clients s c = Some cl \<longrightarrow> client_inv (history s @ [Setup (comInit s)]) c cl"
    by (simp add: shutdown_inv_def clients_inv_def client_inv_append)
  with assms(1) h show ?thesis
    by (simp add: shutdown_inv_def worker_inv_def clients_inv_def history_inv_def)
qed

lemma inv_loop:
  assumes "shutdown_inv n s" and "dispatch_thread s = LoopTest" and "running s"
  shows "shutdown_inv n (s\<lparr>processing_mutex := None, dispatch_thread := Blocked\<rparr>)"
  using assms by (auto simp: shutdown_inv_def worker_inv_def clients_inv_def history_inv_def)

lemma inv_exit:
  assumes "shutdown_inv n s" and "dispatch_thread s = LoopTest" and "\<not> running s"
  shows "shutdown_inv n (s\<lparr>processing_mutex := None, dispatch_thread := Exited,
              history := history s @ (if SUCCEEDED (comInit s) then [Teardown] else []) @ [ThreadExit]\<rparr>)"
    (is "shutdown_inv n ?s'")
proof -
  from assms have r: "\<forall>e \<in> set (history s). rank e \<le> 2" and st: "\<exists>c. StopRan c \<in> set (history s)"
    by (simp_all add: shutdown_inv_def worker_inv_def)
  from r have nd: "CountDecrement \<notin> set (history s)" by force
  have w: "worker_inv ?s'"
    using st assms(3) by (auto simp: worker_inv_def)
  have c: "clients_inv ?s'"
    using assms(1) by (simp add: shutdown_inv_def clients_inv_def client_inv_append)
  from assms(1) have srt: "sorted (map rank (history s))"
    by (simp add: shutdown_inv_def history_inv_def)
  have "sorted (map rank (history ?s'))"
    using srt r by (force simp: sorted_append)
  with assms(1) nd have "history_inv n ?s'"
    by (auto simp: shutdown_inv_def history_inv_def)
  with w c show ?thesis by (simp add: shutdown_inv_def)
qed

lemma inv_wake:
  assumes "shutdown_inv n s" and "dispatch_thread s = Woken"
  shows "shutdown_inv n (s\<lparr>processing_mutex := Some Worker, dispatch_thread := Resumed\<rparr>)"
  using assms by (auto simp: shutdown_inv_def worker_inv_def clients_inv_def history_inv_def)

lemma inv_crash:
  assumes "shutdown_inv n s" and "dispatch_thread s = Resumed"
  shows "shutdown_inv n (terminate s)"
  using assms
  by (auto simp: terminate_def shutdown_inv_def worker_inv_def clients_inv_def history_inv_def)

lemma inv_packaged_task:
  assumes "shutdown_inv n s" and "dispatch_thread s = Resumed"
      and "clients s c = Some cl" and "pc cl = Waiting" and "future cl = None"
  shows "shutdown_inv n ((packaged_task c cl s)\<lparr>dispatch_thread := LoopTest\<rparr>)"
    (is "shutdown_inv n ?s'")
proof -
  from assms(1,2) have run: "running s" and r: "\<forall>e \<in> set (history s). rank e \<le> 1"
    by (simp_all add: shutdown_inv_def worker_inv_def)
  from r have nd: "CountDecrement \<notin> set (history s)" and ns: "\<And>c'. StopRan c' \<notin> set (history s)"
    by force+
  from assms(1) have srt: "sorted (map rank (history s))"
    and rc: "refcount s = n"
    and ci: "\<And>c' cl'. clients s c' = Some cl' \<Longrightarrow> client_inv (history s) c' cl'"
    using nd by (auto simp: shutdown_inv_def history_inv_def clients_inv_def)
  show ?thesis
  proof (cases "task cl")
    case (Call f)
    obtain res b where f: "f (backend s) = (res, b)" by (cases "f (backend s)")
    let ?out = "case res of Inl e \<Rightarrow> Exception e | Inr v \<Rightarrow> Value v"
    have s': "?s' = s\<lparr>backend := b, clients := (clients s)(c \<mapsto> cl\<lparr>future := Some ?out\<rparr>),
                 history := history s @ [Ran c], dispatch_thread := LoopTest\<rparr>"
      by (simp add: packaged_task_def Call f)
    have w: "worker_inv ?s'"
      using run r by (auto simp: s' worker_inv_def)
    have "client_inv (history s @ [Ran c]) c (cl\<lparr>future := Some ?out\<rparr>)"
      using assms(4) Call by (simp add: client_inv_def)
    then have c: "clients_inv ?s'"
      using ci by (simp add: s' clients_inv_def client_inv_append)
    have "sorted (map rank (history s @ [Ran c]))"
      using srt r by (force simp: sorted_append)
    then have "history_inv n ?s'"
      using nd ns rc by (simp add: s' history_inv_def)
    with w c show ?thesis by (simp add: shutdown_inv_def)
  next
    case StopRunning
    have s': "?s' = s\<lparr>running := False, clients := (clients s)(c \<mapsto> cl\<lparr>future := Some Void\<rparr>),
                 history := history s @ [StopRan c], dispatch_thread := LoopTest\<rparr>"
      by (simp add: packaged_task_def StopRunning)
    have w: "worker_inv ?s'"
      using r by (force simp: s' worker_inv_def)
    have "client_inv (history s @ [StopRan c]) c (cl\<lparr>future := Some Void\<rparr>)"
      using assms(4) by (simp add: client_inv_def)
    then have c: "clients_inv ?s'"
      using ci by (simp add: s' clients_inv_def client_inv_append)
    have "sorted (map rank (history s @ [StopRan c]))"
      using srt r by (force simp: sorted_append)
    then have "history_inv n ?s'"
      using nd ns rc by (simp add: s' history_inv_def)
    with w c show ?thesis by (simp add: shutdown_inv_def)
  qed
qed

lemma inv_invoke:
  assumes "shutdown_inv n s" and "dispatch_thread s = Resumed"
  shows "shutdown_inv n (invoke s)"
  using assms inv_crash[OF assms] inv_packaged_task[OF assms]
  by (auto simp: invoke_def split: option.splits caller_pc.splits)

lemma inv_threadProc:
  assumes "shutdown_inv n s" and "threadProc s = Some s'"
  shows "shutdown_inv n s'"
  using assms inv_spawn[OF assms(1)] inv_enter[OF assms(1)] inv_loop[OF assms(1)]
    inv_exit[OF assms(1)] inv_wake[OF assms(1)] inv_invoke[OF assms(1)]
  by (auto simp: threadProc_def split: worker_pc.splits if_splits)


text \<open>The callers' transitions.\<close>

lemma worker_inv_cong:
  "dispatch_thread s' = dispatch_thread s \<Longrightarrow> running s' = running s \<Longrightarrow>
     history s' = history s \<Longrightarrow> comInit s' = comInit s \<Longrightarrow> worker_inv s' = worker_inv s"
  by (simp add: worker_inv_def)

lemma worker_inv_woken:
  "worker_inv s \<Longrightarrow> dispatch_thread s = Blocked \<Longrightarrow> dispatch_thread s' = Woken \<Longrightarrow>
     running s' = running s \<Longrightarrow> history s' = history s \<Longrightarrow> worker_inv s'"
  by (simp add: worker_inv_def)

lemma worker_inv_exited:
  "worker_inv s \<Longrightarrow> dispatch_thread s = Exited \<Longrightarrow> dispatch_thread s' = Exited \<Longrightarrow>
     running s' = running s \<Longrightarrow> history s' = history s @ h \<Longrightarrow> comInit s' = comInit s \<Longrightarrow>
     worker_inv s'"
  by (auto simp: worker_inv_def)

lemma released_remains:
  assumes "\<exists>c' cl'. clients s c' = Some cl' \<and> pc cl' = Released"
      and "clients s c = Some cl" and "pc cl \<noteq> Released"
  shows "\<exists>c' cl'. ((clients s)(c \<mapsto> cl2)) c' = Some cl' \<and> pc cl' = Released"
proof -
  from assms(1) obtain c' cl' where c': "clients s c' = Some cl'" "pc cl' = Released" by blast
  with assms(2,3) have "c' \<noteq> c" by auto
  with c' show ?thesis by auto
qed

lemma inv_early:
  assumes "shutdown_inv n s" and "clients s c = Some cl"
      and "pc cl \<in> {Start, Locked, Stored, Notified}"
      and "pc' \<in> {Locked, Stored, Notified, Waiting}"
      and "clients s' = (clients s)(c \<mapsto> cl\<lparr>pc := pc'\<rparr>)"
      and "history s' = history s" and "refcount s' = refcount s" and "running s' = running s"
      and "comInit s' = comInit s"
      and "dispatch_thread s' = dispatch_thread s \<or>
           (dispatch_thread s = Blocked \<and> dispatch_thread s' = Woken)"
  shows "shutdown_inv n s'"
proof -
  from assms(1) have w: "worker_inv s" and ci: "clients_inv s" and hi: "history_inv n s"
    by (simp_all add: shutdown_inv_def)
  have w': "worker_inv s'"
    using w assms(6,8,9,10) worker_inv_cong[of s' s] worker_inv_woken[of s s'] by auto
  have "client_inv (history s) c (cl\<lparr>pc := pc'\<rparr>)"
    using clients_invD[OF ci assms(2)] assms(4) by (intro client_inv_early) auto
  then have c': "clients_inv s'"
    using ci assms(5,6) by (auto simp: clients_inv_def)
  have "CountDecrement \<in> set (history s) \<Longrightarrow>
          \<exists>c' cl'. ((clients s)(c \<mapsto> cl\<lparr>pc := pc'\<rparr>)) c' = Some cl' \<and> pc cl' = Released"
    using hi assms(2,3) by (intro released_remains) (auto simp: history_inv_def)
  then have "history_inv n s'"
    using hi assms(5,6,7) by (simp add: history_inv_def)
  with w' c' show ?thesis by (simp add: shutdown_inv_def)
qed

lemma inv_get:
  assumes "shutdown_inv n s" and "clients s c = Some cl" and "pc cl = Waiting"
      and "future cl = Some out"
  shows "shutdown_inv n (s\<lparr>clients := (clients s)(c \<mapsto> cl\<lparr>pc := Got out\<rparr>)\<rparr>)"
    (is "shutdown_inv n ?s'")
proof -
  from assms(1) have w: "worker_inv s" and ci: "clients_inv s" and hi: "history_inv n s"
    by (simp_all add: shutdown_inv_def)
  have w': "worker_inv ?s'"
    using w by (simp add: worker_inv_cong[of ?s' s])
  have "client_inv (history s) c (cl\<lparr>pc := Got out\<rparr>)"
    using clients_invD[OF ci assms(2)] assms(4) by (simp add: client_inv_def)
  then have c': "clients_inv ?s'"
    using ci by (auto simp: clients_inv_def)
  have "CountDecrement \<in> set (history s) \<Longrightarrow>
          \<exists>c' cl'. ((clients s)(c \<mapsto> cl\<lparr>pc := Got out\<rparr>)) c' = Some cl' \<and> pc cl' = Released"
    using hi assms(2,3) by (intro released_remains) (auto simp: history_inv_def)
  then have "history_inv n ?s'"
    using hi by (simp add: history_inv_def)
  with w' c' show ?thesis by (simp add: shutdown_inv_def)
qed

lemma inv_join:
  assumes "shutdown_inv n s" and "clients s c = Some cl" and "pc cl = Got out"
      and "task cl = StopRunning" and "dispatch_thread s = Exited"
  shows "shutdown_inv n (s\<lparr>clients := (clients s)(c \<mapsto> cl\<lparr>pc := Joined\<rparr>),
                            history := history s @ [DtorReturn]\<rparr>)"
    (is "shutdown_inv n ?s'")
proof -
  from assms(1) have w: "worker_inv s" and ci: "clients_inv s" and hi: "history_inv n s"
    by (simp_all add: shutdown_inv_def)
  from clients_invD[OF ci assms(2)] assms(3) have fut: "future cl \<noteq> None"
    by (simp add: client_inv_def)
  from no_decrement_yet[OF ci hi assms(2) fut assms(4)] assms(3)
  have nd: "CountDecrement \<notin> set (history s)" by simp
  have w': "worker_inv ?s'"
    using w assms(5) by (intro worker_inv_exited[of s ?s' "[DtorReturn]"]) simp_all
  have "client_inv (history s @ [DtorReturn]) c (cl\<lparr>pc := Joined\<rparr>)"
    using clients_invD[OF ci assms(2)] fut assms(4) by (simp add: client_inv_def)
  then have c': "clients_inv ?s'"
    using ci by (simp add: clients_inv_def client_inv_append)
  have "\<forall>e \<in> set (history s). rank e \<le> 5"
    using nd by (auto intro: rank_le_5)
  then have "sorted (map rank (history s @ [DtorReturn]))"
    using hi by (simp add: history_inv_def sorted_append)
  then have "history_inv n ?s'"
    using hi nd by (simp add: history_inv_def)
  with w' c' show ?thesis by (simp add: shutdown_inv_def)
qed

lemma inv_decrement:
  assumes "shutdown_inv n s" and "clients s c = Some cl" and "pc cl = Joined"
  shows "shutdown_inv n (s\<lparr>refcount := refcount s - 1,
                            clients := (clients s)(c \<mapsto> cl\<lparr>pc := Released\<rparr>),
                            history := history s @ [CountDecrement]\<rparr>)"
    (is "shutdown_inv n ?s'")
proof -
  from assms(1) have w: "worker_inv s" and ci: "clients_inv s" and hi: "history_inv n s"
    by (simp_all add: shutdown_inv_def)
  from clients_invD[OF ci assms(2)] assms(3)
  have fut: "future cl \<noteq> None" and st: "task cl = StopRunning" and dr: "DtorReturn \<in> set (history s)"
    by (simp_all add: client_inv_def)
  from no_decrement_yet[OF ci hi assms(2) fut st] assms(3)
  have nd: "CountDecrement \<notin> set (history s)" by simp
  have ex: "dispatch_thread s = Exited"
  proof (rule ccontr)
    assume ne: "dispatch_thread s \<noteq> Exited"
    with w have "\<forall>e \<in> set (history s). rank e \<le> 2"
      by (cases "dispatch_thread s") (auto simp: worker_inv_def split: if_splits)
    with dr show False by force
  qed
  have w': "worker_inv ?s'"
    using w ex by (intro worker_inv_exited[of s ?s' "[CountDecrement]"]) simp_all
  have "client_inv (history s @ [CountDecrement]) c (cl\<lparr>pc := Released\<rparr>)"
    using clients_invD[OF ci assms(2)] fut st dr by (simp add: client_inv_def)
  then have c': "clients_inv ?s'"
    using ci by (simp add: clients_inv_def client_inv_append)
  have "sorted (map rank (history s @ [CountDecrement]))"
    using hi by (simp add: history_inv_def sorted_append rank_le_6)
  moreover have "\<exists>c' cl'. clients ?s' c' = Some cl' \<and> pc cl' = Released"
    by (intro exI[of _ c] exI[of _ "cl\<lparr>pc := Released\<rparr>"]) simp
  moreover have "refcount ?s' = n - 1"
    using hi nd by (simp add: history_inv_def)
  moreover have "\<forall>c c'. StopRan c \<in> set (history ?s') \<longrightarrow> StopRan c' \<in> set (history ?s') \<longrightarrow> c = c'"
    using hi by (simp add: history_inv_def)
  ultimately have "history_inv n ?s'"
    unfolding history_inv_def by simp
  with w' c' show ?thesis by (simp add: shutdown_inv_def)
qed

lemma inv_dispatch:
  assumes "shutdown_inv n s" and "dispatch c s = Some s'"
  shows "shutdown_inv n s'"
proof -
  from assms(2) obtain cl where cl: "clients s c = Some cl"
    by (auto simp: dispatch_def split: option.splits)
  show ?thesis
  proof (cases "pc cl")
    case Start
    with assms(2) cl have "s' = s\<lparr>processing_mutex := Some (Caller c),
                                   clients := (clients s)(c \<mapsto> cl\<lparr>pc := Locked\<rparr>)\<rparr>"
      by (auto simp: dispatch_def split: if_splits)
    with inv_early[OF assms(1) cl, of Locked s'] Start show ?thesis by simp
  next
    case Locked
    with assms(2) cl have "s' = s\<lparr>dispatched_function := Some c,
                                   clients := (clients s)(c \<mapsto> cl\<lparr>pc := Stored\<rparr>)\<rparr>"
      by (auto simp: dispatch_def)
    with inv_early[OF assms(1) cl, of Stored s'] Locked show ?thesis by simp
  next
    case Stored
    with assms(2) cl have "s' = s\<lparr>dispatch_thread := notify_all (dispatch_thread s),
                                   clients := (clients s)(c \<mapsto> cl\<lparr>pc := Notified\<rparr>)\<rparr>"
      by (auto simp: dispatch_def)
    with inv_early[OF assms(1) cl, of Notified s'] Stored show ?thesis
      by (cases "dispatch_thread s") (simp_all add: notify_all_def)
  next
    case Notified
    with assms(2) cl have "s' = s\<lparr>processing_mutex := None,
                                   clients := (clients s)(c \<mapsto> cl\<lparr>pc := Waiting\<rparr>)\<rparr>"
      by (auto simp: dispatch_def)
    with inv_early[OF assms(1) cl, of Waiting s'] Notified show ?thesis by simp
  next
    case Waiting
    with assms(2) cl obtain out where "future cl = Some out"
      and "s' = s\<lparr>clients := (clients s)(c \<mapsto> cl\<lparr>pc := Got out\<rparr>)\<rparr>"
      by (auto simp: dispatch_def split: option.splits)
    with inv_get[OF assms(1) cl Waiting] show ?thesis by simp
  next
    case (Got out)
    with assms(2) cl have "task cl = StopRunning" and "dispatch_thread s = Exited"
      and "s' = s\<lparr>clients := (clients s)(c \<mapsto> cl\<lparr>pc := Joined\<rparr>),
                   history := history s @ [DtorReturn]\<rparr>"
      by (auto simp: dispatch_def split: callable.splits worker_pc.splits)
    with inv_join[OF assms(1) cl Got] show ?thesis by simp
  next
    case Joined
    with assms(2) cl have "s' = s\<lparr>refcount := refcount s - 1,
                                   clients := (clients s)(c \<mapsto> cl\<lparr>pc := Released\<rparr>),
                                   history := history s @ [CountDecrement]\<rparr>"
      by (auto simp: dispatch_def)
    with inv_decrement[OF assms(1) cl Joined] show ?thesis by simp
  next
    case Released
    with assms(2) cl show ?thesis by (simp add: dispatch_def)
  qed
qed

lemma inv_spurious:
  assumes "shutdown_inv n s" and "spurious_wakeup s = Some s'"
  shows "shutdown_inv n s'"
proof -
  from assms(2) have b: "dispatch_thread s = Blocked" and s': "s' = s\<lparr>dispatch_thread := Woken\<rparr>"
    by (auto simp: spurious_wakeup_def split: worker_pc.splits)
  from assms(1) b have "worker_inv s'"
    by (simp add: s' shutdown_inv_def worker_inv_def)
  moreover from assms(1) have "clients_inv s'"
    by (simp add: s' shutdown_inv_def clients_inv_def)
  moreover from assms(1) have "history_inv n s'"
    by (simp add: s' shutdown_inv_def history_inv_def)
  ultimately show ?thesis by (simp add: shutdown_inv_def)
qed

lemma inv_step:
  assumes "shutdown_inv n s" and "step a s = Some s'"
  shows "shutdown_inv n s'"
proof (cases a)
  case Worker
  with assms(2) have "threadProc s = Some s'"
    by (auto simp: step_def split: worker_pc.splits)
  with assms(1) show ?thesis by (rule inv_threadProc)
next
  case (Caller c)
  with assms(2) have "dispatch c s = Some s'"
    by (auto simp: step_def split: worker_pc.splits)
  with assms(1) show ?thesis by (rule inv_dispatch)
next
  case Spurious
  with assms(2) have "spurious_wakeup s = Some s'"
    by (auto simp: step_def split: worker_pc.splits)
  with assms(1) show ?thesis by (rule inv_spurious)
qed

lemma inv_run:
  "shutdown_inv n s \<Longrightarrow> run \<sigma> s = Some s' \<Longrightarrow> shutdown_inv n s'"
proof (induction \<sigma> arbitrary: s)
  case Nil
  then show ?case by simp
next
  case (Cons a \<sigma>)
  from Cons.prems(2) obtain s1 where s1: "step a s = Some s1" and r: "run \<sigma> s1 = Some s'"
    by (auto split: option.splits)
  from inv_step[OF Cons.prems(1) s1] have "shutdown_inv n s1" .
  from Cons.IH[OF this r] show ?case .
qed

section \<open>Consequences of the invariant\<close>

lemma before_sorted:
  "sorted (map rank h) \<Longrightarrow> a \<in> set h \<Longrightarrow> b \<in> set h \<Longrightarrow> rank a < rank b \<Longrightarrow> before a b h"
proof (induction h)
  case Nil
  then show ?case by simp
next
  case (Cons x xs)
  show ?case
  proof (cases "x = a")
    case True
    with Cons.prems(3,4) have "b \<in> set xs" by auto
    with True show ?thesis by simp
  next
    case False
    with Cons.prems(2) have a: "a \<in> set xs" by simp
    have "b \<noteq> x"
    proof
      assume "b = x"
      with Cons.prems(1) a have "rank b \<le> rank a" by auto
      with Cons.prems(4) show False by simp
    qed
    with Cons.prems(3) have b: "b \<in> set xs" by simp
    from Cons.prems(1) have "sorted (map rank xs)" by simp
    from Cons.IH[OF this a b Cons.prems(4)] False show ?thesis by simp
  qed
qed

lemma not_before_sorted:
  "sorted (map rank h) \<Longrightarrow> rank b < rank a \<Longrightarrow> \<not> before a b h"
proof (induction h)
  case Nil
  then show ?case by simp
next
  case (Cons x xs)
  then show ?case by (auto simp: not_le)
qed

lemma alive_rank_bound:
  assumes "worker_inv s" and "dispatch_thread s \<noteq> Exited"
  shows "\<forall>e \<in> set (history s). rank e \<le> 2"
  using assms by (cases "dispatch_thread s") (auto simp: worker_inv_def split: if_splits)

lemma step_comInit: "step a s = Some s' \<Longrightarrow> comInit s' = comInit s"
proof (cases a)
  case Worker
  assume "step a s = Some s'"
  with Worker have "threadProc s = Some s'"
    by (auto simp: step_def split: worker_pc.splits)
  then show ?thesis
    by (cases "dispatch_thread s")
      (auto simp: threadProc_def invoke_def packaged_task_def terminate_def
        split: if_splits option.splits caller_pc.splits callable.splits prod.splits)
next
  case (Caller c)
  assume "step a s = Some s'"
  with Caller have d: "dispatch c s = Some s'"
    by (auto simp: step_def split: worker_pc.splits)
  then obtain cl where "clients s c = Some cl"
    by (auto simp: dispatch_def split: option.splits)
  with d show ?thesis
    by (cases "pc cl")
      (auto simp: dispatch_def split: if_splits option.splits callable.splits worker_pc.splits)
next
  case Spurious
  assume "step a s = Some s'"
  with Spurious show ?thesis
    by (auto simp: step_def spurious_wakeup_def split: worker_pc.splits)
qed

lemma run_comInit: "run \<sigma> s = Some s' \<Longrightarrow> comInit s' = comInit s"
proof (induction \<sigma> arbitrary: s)
  case Nil
  then show ?case by simp
next
  case (Cons a \<sigma>)
  from Cons.prems obtain s1 where s1: "step a s = Some s1" and r: "run \<sigma> s1 = Some s'"
    by (auto split: option.splits)
  from Cons.IH[OF r] step_comInit[OF s1] show ?case by simp
qed

lemma destruction_run:
  "run destruction only_destroyed =
     Some \<lparr>running = False, processing_mutex = None, dispatched_function = Some 0,
           dispatch_thread = Exited, comInit = 0,
           clients = (\<lambda>c. if c = 0 then Some \<lparr>pc = Released, task = StopRunning, future = Some Void\<rparr>
                           else None),
           backend = (), refcount = 0,
           history = [Setup 0, StopRan 0, Teardown, ThreadExit, DtorReturn, CountDecrement]\<rparr>"
  by (simp add: destruction_def shutdown_steps_def only_destroyed_def constructed_def submit_def
      step_defs SUCCEEDED_def fun_eq_iff)

section \<open>A dispatch on an idle dispatcher\<close>

lemma dispatch_from_idle:
  assumes "idle s0" and "clients s0 c = Some (submit (Call f))" and "f (backend s0) = (res, b')"
      and "set \<sigma> \<subseteq> {Worker, Caller c}" and "run \<sigma> s0 = Some s"
  shows "running s \<and> dispatch_thread s \<noteq> Exited \<and> dispatch_thread s \<noteq> Crashed \<and>
         length \<sigma> \<le> 8 \<and>
         (if length \<sigma> = 8
          then clients s c =
                 Some \<lparr>pc = Got (case res of Inl e \<Rightarrow> Exception e | Inr v \<Rightarrow> Value v),
                       task = Call f,
                       future = Some (case res of Inl e \<Rightarrow> Exception e | Inr v \<Rightarrow> Value v)\<rparr> \<and>
               idle s \<and> backend s = b' \<and> history s = history s0 @ [Ran c]
          else step Worker s \<noteq> None \<or> step (Caller c) s \<noteq> None)"
proof -
  from assms(4) have sub: "set \<sigma> \<subseteq> set [Worker, Caller c]" by simp
  from run_bounded[OF call_exhausted[OF assms(1-3)] assms(5) sub]
  have len: "length \<sigma> \<le> 8" by simp
  from run_in_frontier[OF assms(5) sub]
  have "s \<in> set (frontier [Worker, Caller c] (length \<sigma>) s0)" .
  with call_explored[OF assms(1-3) len] len show ?thesis by blast
qed

lemma throwing_task_leaves_worker_alive:
  assumes "dispatch_thread s = Resumed" and "dispatched_function s = Some c"
      and "clients s c = Some cl" and "pc cl = Waiting" and "future cl = None"
      and "task cl = Call f" and "f (backend s) = (Inl e, b')"
  shows "step Worker s =
           Some (s\<lparr>backend := b', clients := (clients s)(c \<mapsto> cl\<lparr>future := Some (Exception e)\<rparr>),
                   history := history s @ [Ran c], dispatch_thread := LoopTest\<rparr>)"
  using assms by (simp add: step_defs)

lemma stop_explored:
  assumes "idle s0" and "clients s0 c = Some (submit StopRunning)" and "n \<le> 10"
  shows "\<forall>s \<in> set (frontier [Worker, Caller c] n s0).
           dispatch_thread s \<noteq> Crashed \<and>
           (if n = 10
            then clients s c = Some \<lparr>pc = Released, task = StopRunning, future = Some Void\<rparr> \<and>
                 dispatch_thread s = Exited \<and> \<not> running s \<and>
                 refcount s = refcount s0 - 1 \<and>
                 history s = history s0 @ [StopRan c] @
                   (if SUCCEEDED (comInit s0) then [Teardown] else []) @
                   [ThreadExit, DtorReturn, CountDecrement]
            else step Worker s \<noteq> None \<or> step (Caller c) s \<noteq> None)"
proof -
  have "\<forall>k \<in> set [0..<11]. \<forall>s \<in> set (frontier [Worker, Caller c] k s0).
           dispatch_thread s \<noteq> Crashed \<and>
           (if k = 10
            then clients s c = Some \<lparr>pc = Released, task = StopRunning, future = Some Void\<rparr> \<and>
                 dispatch_thread s = Exited \<and> \<not> running s \<and>
                 refcount s = refcount s0 - 1 \<and>
                 history s = history s0 @ [StopRan c] @
                   (if SUCCEEDED (comInit s0) then [Teardown] else []) @
                   [ThreadExit, DtorReturn, CountDecrement]
            else step Worker s \<noteq> None \<or> step (Caller c) s \<noteq> None)"
    using assms(1,2) by (simp add: idle_def explore_simps)
  moreover from assms(3) have "n \<in> set [0..<11]" by simp
  ultimately show ?thesis by blast
qed

lemma stop_exhausted:
  assumes "idle s0" and "clients s0 c = Some (submit StopRunning)"
  shows "frontier [Worker, Caller c] 11 s0 = []"
  using assms by (simp add: idle_def explore_simps)

lemma destructor_from_idle:
  assumes "idle s0" and "clients s0 c = Some (submit StopRunning)"
      and "set \<sigma> \<subseteq> {Worker, Caller c}" and "run \<sigma> s0 = Some s"
  shows "length \<sigma> \<le> 10 \<and>
         (if length \<sigma> = 10
          then clients s c = Some \<lparr>pc = Released, task = StopRunning, future = Some Void\<rparr> \<and>
               dispatch_thread s = Exited \<and> \<not> running s \<and>
               refcount s = refcount s0 - 1 \<and>
               history s = history s0 @ [StopRan c] @
                 (if SUCCEEDED (comInit s0) then [Teardown] else []) @
                 [ThreadExit, DtorReturn, CountDecrement]
          else step Worker s \<noteq> None \<or> step (Caller c) s \<noteq> None)"
proof -
  from assms(3) have sub: "set \<sigma> \<subseteq> set [Worker, Caller c]" by simp
  from run_bounded[OF stop_exhausted[OF assms(1,2)] assms(4) sub]
  have len: "length \<sigma> \<le> 10" by simp
  from run_in_frontier[OF assms(4) sub]
  have "s \<in> set (frontier [Worker, Caller c] (length \<sigma>) s0)" .
  with stop_explored[OF assms(1,2) len] len show ?thesis by blast
qed

section \<open>Result fidelity in every run\<close>

lemma faithful_pc:
  "faithful cl \<Longrightarrow> (case p of Got out \<Rightarrow> future cl = Some out | _ \<Rightarrow> True) \<Longrightarrow>
     faithful (cl\<lparr>pc := p\<rparr>)"
  by (auto simp: faithful_def split: option.splits caller_pc.splits)

lemma faithful_submit: "faithful (submit w)"
  by (simp add: faithful_def submit_def)

lemma packaged_task_clients:
  assumes "pc cl = Waiting"
  shows "\<exists>out. produced (task cl) out \<and>
           clients (packaged_task d cl s) = (clients s)(d \<mapsto> cl\<lparr>future := Some out\<rparr>)"
proof (cases "task cl")
  case (Call f)
  obtain res b where f: "f (backend s) = (res, b)" by (cases "f (backend s)")
  let ?out = "case res of Inl e \<Rightarrow> Exception e | Inr v \<Rightarrow> Value v"
  have "produced (task cl) ?out"
    using f by (auto simp: produced_def Call intro!: exI[of _ "backend s"])
  moreover have "clients (packaged_task d cl s) = (clients s)(d \<mapsto> cl\<lparr>future := Some ?out\<rparr>)"
    by (simp add: packaged_task_def Call f)
  ultimately show ?thesis by blast
next
  case StopRunning
  have "produced (task cl) Void" by (simp add: produced_def StopRunning)
  moreover have "clients (packaged_task d cl s) = (clients s)(d \<mapsto> cl\<lparr>future := Some Void\<rparr>)"
    by (simp add: packaged_task_def StopRunning)
  ultimately show ?thesis by blast
qed

lemma own_threadProc:
  assumes "clients s c = Some cl" and "faithful cl" and "threadProc s = Some s'"
  shows "\<exists>cl'. clients s' c = Some cl' \<and> task cl' = task cl \<and> faithful cl'"
proof (cases "dispatch_thread s = Resumed")
  case False
  with assms(3) have "clients s' = clients s"
    by (auto simp: threadProc_def split: worker_pc.splits if_splits)
  with assms(1,2) show ?thesis by simp
next
  case True
  with assms(3) have s': "s' = invoke s" by (simp add: threadProc_def)
  show ?thesis
  proof (cases "\<exists>d cld. dispatched_function s = Some d \<and> clients s d = Some cld \<and> pc cld = Waiting \<and>
                   future cld = None")
    case True
    then obtain d cld where d: "dispatched_function s = Some d" "clients s d = Some cld"
      "pc cld = Waiting" "future cld = None" by blast
    then have i: "invoke s = (packaged_task d cld s)\<lparr>dispatch_thread := LoopTest\<rparr>"
      by (simp add: invoke_def)
    from packaged_task_clients[OF d(3), of d s] obtain out
      where out: "produced (task cld) out"
        and c: "clients (packaged_task d cld s) = (clients s)(d \<mapsto> cld\<lparr>future := Some out\<rparr>)"
      by blast
    show ?thesis
    proof (cases "d = c")
      case True
      with d(2) assms(1) have "cld = cl" by simp
      with out d(3) have "faithful (cl\<lparr>future := Some out\<rparr>)"
        by (simp add: faithful_def)
      with s' i c True \<open>cld = cl\<close> show ?thesis by simp
    next
      case False
      with s' i c assms(1,2) show ?thesis by simp
    qed
  next
    case False
    then have "invoke s = terminate s"
      by (auto simp: invoke_def split: option.splits caller_pc.splits)
    with s' have "clients s' = clients s" by (simp add: terminate_def)
    with assms(1,2) show ?thesis by simp
  qed
qed

lemma own_dispatch:
  assumes "clients s c = Some cl" and "faithful cl" and "dispatch d s = Some s'"
  shows "\<exists>cl'. clients s' c = Some cl' \<and> task cl' = task cl \<and> faithful cl'"
proof -
  from assms(3) obtain cld where cld: "clients s d = Some cld"
    by (auto simp: dispatch_def split: option.splits)
  from assms(3) cld obtain p where p: "clients s' = (clients s)(d \<mapsto> cld\<lparr>pc := p\<rparr>)"
    and g: "case p of Got out \<Rightarrow> future cld = Some out | _ \<Rightarrow> True"
    by (cases "pc cld")
      (auto simp: dispatch_def split: if_splits option.splits callable.splits worker_pc.splits)
  show ?thesis
  proof (cases "d = c")
    case True
    with cld assms(1) have eq: "cld = cl" by simp
    from faithful_pc[OF assms(2) g[unfolded eq]] have "faithful (cl\<lparr>pc := p\<rparr>)" .
    with p True eq show ?thesis by simp
  next
    case False
    with p assms(1,2) show ?thesis by simp
  qed
qed

lemma own_step:
  assumes "clients s c = Some cl" and "faithful cl" and "step a s = Some s'"
  shows "\<exists>cl'. clients s' c = Some cl' \<and> task cl' = task cl \<and> faithful cl'"
proof (cases a)
  case Worker
  with assms(3) have "threadProc s = Some s'"
    by (auto simp: step_def split: worker_pc.splits)
  from own_threadProc[OF assms(1,2) this] show ?thesis .
next
  case (Caller d)
  with assms(3) have "dispatch d s = Some s'"
    by (auto simp: step_def split: worker_pc.splits)
  from own_dispatch[OF assms(1,2) this] show ?thesis .
next
  case Spurious
  with assms(3) have "clients s' = clients s"
    by (auto simp: step_def spurious_wakeup_def split: worker_pc.splits)
  with assms(1,2) show ?thesis by simp
qed

lemma own_run:
  "clients s c = Some cl \<Longrightarrow> faithful cl \<Longrightarrow> run \<sigma> s = Some s' \<Longrightarrow>
     \<exists>cl'. clients s' c = Some cl' \<and> task cl' = task cl \<and> faithful cl'"
proof (induction \<sigma> arbitrary: s cl)
  case Nil
  then show ?case by simp
next
  case (Cons a \<sigma>)
  from Cons.prems(3) obtain s1 where s1: "step a s = Some s1" and r: "run \<sigma> s1 = Some s'"
    by (auto split: option.splits)
  from own_step[OF Cons.prems(1,2) s1] obtain cl1
    where "clients s1 c = Some cl1" "task cl1 = task cl" "faithful cl1" by blast
  with Cons.IH[OF _ _ r] show ?case by auto
qed

lemma step_task: "step a s = Some s' \<Longrightarrow> map_option task (clients s' c) = map_option task (clients s c)"
proof (cases a)
  case Worker
  assume "step a s = Some s'"
  with Worker have "threadProc s = Some s'"
    by (auto simp: step_def split: worker_pc.splits)
  then show ?thesis
    by (cases "dispatch_thread s")
      (auto simp: threadProc_def invoke_def packaged_task_def terminate_def
        split: if_splits option.splits caller_pc.splits callable.splits prod.splits)
next
  case (Caller d)
  assume "step a s = Some s'"
  with Caller have d: "dispatch d s = Some s'"
    by (auto simp: step_def split: worker_pc.splits)
  then obtain cl where "clients s d = Some cl"
    by (auto simp: dispatch_def split: option.splits)
  with d show ?thesis
    by (cases "pc cl")
      (auto simp: dispatch_def split: if_splits option.splits callable.splits worker_pc.splits)
next
  case Spurious
  assume "step a s = Some s'"
  with Spurious show ?thesis
    by (auto simp: step_def spurious_wakeup_def split: worker_pc.splits)
qed

lemma run_task: "run \<sigma> s = Some s' \<Longrightarrow> map_option task (clients s' c) = map_option task (clients s c)"
proof (induction \<sigma> arbitrary: s)
  case Nil
  then show ?case by simp
next
  case (Cons a \<sigma>)
  from Cons.prems obtain s1 where s1: "step a s = Some s1" and r: "run \<sigma> s1 = Some s'"
    by (auto split: option.splits)
  from Cons.IH[OF r] step_task[OF s1] show ?case by simp
qed

lemma returned_outcome_is_own:
  assumes "run \<sigma> (constructed hr b n ws) = Some s" and "clients s c = Some cl" and "pc cl = Got out"
  shows "ws c = Some (task cl) \<and> produced (task cl) out"
proof -
  from run_task[OF assms(1), of c] assms(2) have ws: "ws c = Some (task cl)"
    by (cases "ws c") (simp_all add: constructed_def submit_def)
  then have "clients (constructed hr b n ws) c = Some (submit (task cl))"
    by (simp add: constructed_def)
  from own_run[OF this faithful_submit assms(1)] assms(2) have "faithful cl"
    by auto
  with assms(3) have "produced (task cl) out"
    by (auto simp: faithful_def)
  with ws show ?thesis by simp
qed

lemma startup_reaches_idle:
  "\<exists>t. run [Worker, Worker, Worker] (constructed hr b n ws) = Some t \<and> idle t \<and>
       history t = [Setup hr] \<and> clients t = (\<lambda>c. map_option submit (ws c))"
  by (simp add: constructed_def step_defs idle_def)

section \<open>Properties of the provider on the hand-off\<close>

lemma crashed_stuck: "dispatch_thread s = Crashed \<Longrightarrow> step a s = None"
  by (simp add: step_def)




lemma ready_call_exhausted:
  assumes "ready s0" and "clients s0 c = Some (submit (Call f))" and "f (backend s0) = (res, b')"
  shows "frontier [Worker, Caller c] 10 s0 = []"
  using assms unfolding ready_def by (elim conjE disjE) (simp_all add: explore_simps)

lemma ready_call_explored:
  assumes "ready s0" and "clients s0 c = Some (submit (Call f))" and "f (backend s0) = (res, b')"
  shows "\<forall>k \<in> set [0..<10]. \<forall>s \<in> set (frontier [Worker, Caller c] k s0).
           refcount s = refcount s0 \<and>
           (case map_option pc (clients s c) of
              Some (Got out) \<Rightarrow>
                out = (case res of Inl e \<Rightarrow> Exception e | Inr v \<Rightarrow> Value v) \<and> ready s \<and>
                backend s = b' \<and> history s = history s0 @ [Ran c]
            | _ \<Rightarrow> step Worker s \<noteq> None \<or> step (Caller c) s \<noteq> None)"
  using assms unfolding ready_def by (elim conjE disjE) (simp_all add: explore_simps)

lemma ready_call:
  assumes "ready s0" and "clients s0 c = Some (submit (Call f))" and "f (backend s0) = (res, b')"
      and "set \<sigma> \<subseteq> {Worker, Caller c}" and "run \<sigma> s0 = Some s"
  shows "length \<sigma> < 10 \<and> refcount s = refcount s0 \<and>
         (case map_option pc (clients s c) of
            Some (Got out) \<Rightarrow>
              out = (case res of Inl e \<Rightarrow> Exception e | Inr v \<Rightarrow> Value v) \<and> ready s \<and>
              backend s = b' \<and> history s = history s0 @ [Ran c]
          | _ \<Rightarrow> step Worker s \<noteq> None \<or> step (Caller c) s \<noteq> None)"
proof -
  from assms(4) have sub: "set \<sigma> \<subseteq> set [Worker, Caller c]" by simp
  from run_bounded[OF ready_call_exhausted[OF assms(1-3)] assms(5) sub]
  have len: "length \<sigma> < 10" .
  then have "length \<sigma> \<in> set [0..<10]" by simp
  moreover from run_in_frontier[OF assms(5) sub]
  have "s \<in> set (frontier [Worker, Caller c] (length \<sigma>) s0)" .
  ultimately show ?thesis
    using ready_call_explored[OF assms(1-3)] len by blast
qed

text \<open>A call on a ready dispatcher, in terms of its completion.\<close>

lemma dispatch_call_ready:
  assumes "ready s0" and "f (backend s0) = (res, b')"
      and "set \<sigma> \<subseteq> {Worker, Caller c}" and "dispatch_call c (Call f) \<sigma> s0 = Some (r, s)"
  shows "length \<sigma> < 10 \<and> refcount s = refcount s0 \<and>
         (r = Unfinished \<or>
          r = (case res of Inl e \<Rightarrow> Throws e | Inr v \<Rightarrow> Returns v) \<and> ready s \<and> backend s = b' \<and>
          history s = history s0 @ [Ran c])"
proof -
  let ?s1 = "s0\<lparr>clients := (clients s0)(c \<mapsto> submit (Call f))\<rparr>"
  from assms(4) have r: "run \<sigma> ?s1 = Some s" and rg: "r = result_get c s"
    by (auto simp: dispatch_call_def split: option.splits)
  have rd: "ready ?s1" using assms(1) by (simp add: ready_def)
  have cl: "clients ?s1 c = Some (submit (Call f))" by simp
  have fb: "f (backend ?s1) = (res, b')" using assms(2) by simp
  note rcall = ready_call[OF rd cl fb assms(3) r]
  from rcall have len: "length \<sigma> < 10" and rc: "refcount s = refcount s0"
    by simp_all
  have "r = Unfinished \<or>
          r = (case res of Inl e \<Rightarrow> Throws e | Inr v \<Rightarrow> Returns v) \<and> ready s \<and> backend s = b' \<and>
          history s = history s0 @ [Ran c]"
    using rcall rg crashed_stuck[of s Worker] crashed_stuck[of s "Caller c"]
    by (auto simp: result_get_def split: option.splits caller_pc.splits sum.splits outcome.splits)
  with len rc show ?thesis by simp
qed





text \<open>Whatever a call of \<open>dispatch\<close> returns or throws, its own callable has produced.\<close>

lemma dispatch_call_own:
  assumes "dispatch_call c w \<sigma> s = Some (r, s')"
  shows "(\<forall>v. r = Returns v \<longrightarrow> produced w (Value v) \<or> v = Done \<and> produced w Void) \<and>
         (\<forall>e. r = Throws e \<longrightarrow> produced w (Exception e))"
proof -
  let ?s1 = "s\<lparr>clients := (clients s)(c \<mapsto> submit w)\<rparr>"
  from assms have run: "run \<sigma> ?s1 = Some s'" and rg: "r = result_get c s'"
    by (auto simp: dispatch_call_def split: option.splits)
  have "clients ?s1 c = Some (submit w)" by simp
  from own_run[OF this faithful_submit run] obtain cl
    where cl: "clients s' c = Some cl" "task cl = w" "faithful cl"
    by (auto simp: submit_def)
  then show ?thesis using rg
    by (auto simp: result_get_def faithful_def split: caller_pc.splits outcome.splits option.splits if_splits)
qed

lemma init_never_returns_null:
  "init_enchant_provider p mem c \<sigma> c' \<sigma>' statics \<noteq> Some (Returns None, st)"
proof
  assume a: "init_enchant_provider p mem c \<sigma> c' \<sigma>' statics = Some (Returns None, st)"
  then obtain s0 s where d: "dispatch_call c (new_provider p mem) \<sigma> s0 = Some (Returns (Provider None), s)"
    by (auto simp: init_enchant_provider_def
        split: option.splits completion.splits reply.splits prod.splits)
  from dispatch_call_own[OF d] have "produced (new_provider p mem) (Value (Provider None))"
    by (auto simp: produced_def new_provider_def)
  then show False
    by (auto simp: produced_def new_provider_def split: if_splits)
qed

lemma ready_release_exhausted:
  assumes "ready s0" and "clients s0 c = Some (submit StopRunning)"
  shows "frontier [Worker, Caller c] 12 s0 = []"
  using assms unfolding ready_def by (elim conjE disjE) (simp_all add: explore_simps)

lemma ready_release_explored:
  assumes "ready s0" and "clients s0 c = Some (submit StopRunning)"
  shows "\<forall>k \<in> set [0..<12]. \<forall>s \<in> set (frontier [Worker, Caller c] k s0).
           (case map_option pc (clients s c) of
              Some Released \<Rightarrow>
                refcount s = refcount s0 - 1 \<and> dispatch_thread s = Exited \<and>
                history s = history s0 @ [StopRan c] @
                  (if SUCCEEDED (comInit s0) then [Teardown] else []) @
                  [ThreadExit, DtorReturn, CountDecrement]
            | _ \<Rightarrow> step Worker s \<noteq> None \<or> step (Caller c) s \<noteq> None)"
  using assms unfolding ready_def by (elim conjE disjE) (simp_all add: explore_simps)

lemma release_on_ready:
  assumes "ready s0" and "set \<sigma> \<subseteq> {Worker, Caller c}"
      and "com_dispatcher_release_on c \<sigma> s0 = Some (r, st)"
  shows "if refcount s0 = 1
         then length \<sigma> < 12 \<and> (r = Unfinished \<or> r = Returns () \<and> st = None)
         else r = Returns () \<and> st = Some (s0\<lparr>refcount := refcount s0 - 1\<rparr>)"
proof (cases "refcount s0 = 1")
  case False
  with assms(3) show ?thesis by (simp add: com_dispatcher_release_on_def)
next
  case True
  let ?s1 = "s0\<lparr>clients := (clients s0)(c \<mapsto> submit StopRunning)\<rparr>"
  from assms(3) True obtain s where run: "run \<sigma> ?s1 = Some s"
    by (auto simp: com_dispatcher_release_on_def split: option.splits)
  have rd: "ready ?s1" using assms(1) by (simp add: ready_def)
  have cl: "clients ?s1 c = Some (submit StopRunning)" by simp
  from assms(2) have sub: "set \<sigma> \<subseteq> set [Worker, Caller c]" by simp
  from run_bounded[OF ready_release_exhausted[OF rd cl] run sub]
  have len: "length \<sigma> < 12" .
  then have k: "length \<sigma> \<in> set [0..<12]" by simp
  from run_in_frontier[OF run sub]
  have m: "s \<in> set (frontier [Worker, Caller c] (length \<sigma>) ?s1)" .
  note e = ready_release_explored[OF rd cl, THEN bspec, OF k, THEN bspec, OF m]
  from assms(3) True run have "r = Unfinished \<or> r = Returns () \<and> st = None"
    using e crashed_stuck[of s Worker] crashed_stuck[of s "Caller c"]
    by (auto simp: com_dispatcher_release_on_def split: option.splits caller_pc.splits if_splits)
  with True len show ?thesis by simp
qed

lemma dispose_releases_once:
  assumes "ready s0" and "set \<sigma> \<subseteq> {Worker, Caller c}" and "set \<sigma>' \<subseteq> {Worker, Caller c'}"
      and "windows_provider_dispose provider c \<sigma> c' \<sigma>' s0 = Some (r, st)"
  shows "r = Unfinished \<or>
         r = Returns () \<and>
         (if refcount s0 = 1 then st = None
          else \<exists>s. st = Some s \<and> ready s \<and> refcount s = refcount s0 - 1)"
proof -
  from assms(4) obtain r1 s1 where d: "dispatch_call c (Call (\<lambda>b. (Inr Done, b))) \<sigma> s0 = Some (r1, s1)"
    by (auto simp: windows_provider_dispose_def dispose_def split: option.splits)
  have "(\<lambda>b. (Inr Done, b)) (backend s0) = (Inr Done, backend s0)" by simp
  from dispatch_call_ready[OF assms(1) this assms(2) d]
  have r1: "r1 = Unfinished \<or> r1 = Returns Done \<and> ready s1" and rc: "refcount s1 = refcount s0"
    by auto
  from r1 show ?thesis
  proof
    assume "r1 = Unfinished"
    with assms(4) d show ?thesis by (simp add: windows_provider_dispose_def dispose_def)
  next
    assume a: "r1 = Returns Done \<and> ready s1"
    with assms(4) d have rel: "com_dispatcher_release_on c' \<sigma>' s1 = Some (r, st)"
      by (simp add: windows_provider_dispose_def dispose_def)
    from release_on_ready[OF _ assms(3) rel] a rc show ?thesis
      by (auto simp: ready_def split: if_splits)
  qed
qed






text \<open>
  The registry of the first sections is what the statics look like to a caller whose calls
  return: after an acquisition, and after a release that returns, count and existence of
  the dispatcher are what \<open>com_dispatcher_addref\<close> and \<open>com_dispatcher_release\<close> say.
\<close>

lemma registry_view_of_addref:
  assumes "(com_dispatcher g = None) = (statics = None)"
      and "com_dispatcher_refcount g = (case statics of None \<Rightarrow> 0 | Some s \<Rightarrow> refcount s)"
      and "com_dispatcher_addref_on hr statics = Some s'"
  shows "com_dispatcher (com_dispatcher_addref hr g) \<noteq> None \<and>
         com_dispatcher_refcount (com_dispatcher_addref hr g) = refcount s'"
  using assms
  by (cases statics)
    (auto simp: com_dispatcher_addref_on_def com_dispatcher_addref_def assign_new_def
      CoThreadDispatcher_ctor_def constructed_def Let_def split: if_splits)

lemma registry_view_of_release:
  assumes "com_dispatcher g \<noteq> None" and "com_dispatcher_refcount g = refcount s0"
      and "ready s0" and "set \<sigma> \<subseteq> {Worker, Caller c}"
      and "com_dispatcher_release_on c \<sigma> s0 = Some (Returns (), st)"
  shows "(com_dispatcher (com_dispatcher_release g) = None) = (st = None) \<and>
         com_dispatcher_refcount (com_dispatcher_release g) =
           (case st of None \<Rightarrow> 0 | Some s \<Rightarrow> refcount s)"
  using release_on_ready[OF assms(3,4,5)] assms(1,2)
  by (auto simp: com_dispatcher_release_def reset_def split: if_splits option.splits)

section \<open>The claims\<close>

text \<open>
  Claim C1. \<open>dispatch(f)\<close> is to run \<open>f\<close> on the worker thread and return its result to
  the caller. The code does not always do so. Here a single caller dispatches a callable
  that returns \<open>42\<close> on a dispatcher that has just been constructed, and takes
  \<open>processing_mutex\<close> before \<open>threadProc\<close> does: it stores its task, notifies while nobody
  waits and releases the lock; the worker then sets \<open>running\<close> and enters \<open>wait\<close>. In the
  state reached the task has not run, the caller is in \<open>result.wait()\<close>, and neither the
  worker nor any caller can move: only a spurious wake-up could still let \<open>dispatch\<close>
  return. (From an idle dispatcher, with no other caller, \<open>dispatch\<close> does return the result
  of \<open>f\<close>: lemma \<open>dispatch_from_idle\<close>.)
\<close>

theorem first_dispatch_can_hang:
  "\<exists>s. run [Caller 0, Caller 0, Caller 0, Caller 0, Worker, Worker, Worker] answer_42 = Some s \<and>
       clients s 0 = Some \<lparr>pc = Waiting, task = Call (\<lambda>b. (Inr 42, b)), future = None\<rparr> \<and>
       dispatch_thread s = Blocked \<and> running s \<and> history s = [Setup 0] \<and>
       step Worker s = None \<and> (\<forall>c. step (Caller c) s = None) \<and> step Spurious s \<noteq> None"
  by (simp add: answer_42_def constructed_def submit_def step_defs)

text \<open>
  Claim C2. \<open>N\<close> concurrent calls of \<open>dispatch\<close> are to run exactly \<open>N\<close> units of work, a
  second submission waiting for the first to complete. The code does not make it wait.
  Here two callers dispatch on an idle dispatcher; the second takes \<open>processing_mutex\<close>
  after the first has released it and before the woken worker has taken it again, and
  overwrites \<open>dispatched_function\<close>. The worker runs the second task only: one unit of work
  has run, not two; the first caller is in \<open>result.wait()\<close> for a task that nobody holds any
  more, and neither the worker nor any caller can move.
\<close>

theorem second_submission_overwrites_first:
  "\<exists>s. run [Worker, Worker, Worker,
             Caller 0, Caller 0, Caller 0, Caller 0,
             Caller 1, Caller 1, Caller 1, Caller 1,
             Worker, Worker, Worker, Caller 1] two_callers = Some s \<and>
       clients s 0 = Some \<lparr>pc = Waiting, task = Call (\<lambda>b. (Inr 0, Suc b)), future = None\<rparr> \<and>
       clients s 1 = Some \<lparr>pc = Got (Value 1), task = Call (\<lambda>b. (Inr 1, Suc b)), future = Some (Value 1)\<rparr> \<and>
       history s = [Setup 0, Ran 1] \<and> backend s = 1 \<and> idle s \<and>
       step Worker s = None \<and> (\<forall>c. step (Caller c) s = None)"
  by (simp add: two_callers_def constructed_def submit_def step_defs idle_def)

text \<open>
  Claim C3, as amended. The invariant (the count is positive exactly when the dispatcher
  object exists) holds in the initial state, is kept by every acquisition made while the
  count is below \<open>2^32 - 1\<close> and by every release made while the count is above \<open>0\<close>, and so
  holds after every sequence of such calls. Each call is one transition, its whole body
  being under \<open>com_dispatcher_mutex\<close>.
\<close>

theorem registry_invariant_within_range:
  "registry_inv initial_registry \<and>
   (registry_inv s \<longrightarrow> in_range c s \<longrightarrow> registry_inv (do_call c s)) \<and>
   (all_in_range cs initial_registry \<longrightarrow> registry_inv (do_calls cs initial_registry))"
  using registry_inv_initial do_call_preserves_inv do_calls_preserve_inv by blast

theorem registry_invariant_within_range_witness:
  "registry_inv (com_dispatcher_addref 0 initial_registry) \<and>
   in_range Release (com_dispatcher_addref 0 initial_registry) \<and>
   registry_inv (do_call Release (com_dispatcher_addref 0 initial_registry)) \<and>
   all_in_range [Acquire 0, Acquire 1, Release, Release] initial_registry \<and>
   registry_inv (do_calls [Acquire 0, Acquire 1, Release, Release] initial_registry)"
  using registry_invariant_within_range
          [of "com_dispatcher_addref 0 initial_registry" Release
              "[Acquire 0, Acquire 1, Release, Release]"]
  by (simp add: registry_inv_def initial_registry_def addref_refcount addref_dispatcher
        release_refcount release_dispatcher)

text \<open>
  Claim C3, as stated, fails in both directions. A release in the initial state (count
  \<open>0\<close>, no dispatcher) wraps the unsigned count to \<open>2^32 - 1\<close> and creates no dispatcher. And
  after \<open>2^32 - 1\<close> acquisitions, where the invariant holds, one more acquisition wraps the
  count to \<open>0\<close> while the dispatcher exists.
\<close>

theorem count_wrap_breaks_invariant:
  "registry_inv initial_registry \<and>
   com_dispatcher_refcount (com_dispatcher_release initial_registry) = 4294967295 \<and>
   com_dispatcher (com_dispatcher_release initial_registry) = None \<and>
   \<not> registry_inv (com_dispatcher_release initial_registry) \<and>
   registry_inv ((com_dispatcher_addref 0 ^^ 4294967295) initial_registry) \<and>
   \<not> registry_inv (com_dispatcher_addref 0 ((com_dispatcher_addref 0 ^^ 4294967295) initial_registry))"
proof -
  let ?s = "(com_dispatcher_addref 0 ^^ 4294967295) initial_registry"
  have z: "com_dispatcher_refcount initial_registry = 0"
    by (simp add: initial_registry_def)
  have c: "com_dispatcher_refcount ?s = 4294967295"
    by (simp only: addref_funpow_refcount) (simp add: initial_registry_def)
  have "com_dispatcher ((com_dispatcher_addref 0 ^^ Suc 4294967294) initial_registry) = Some \<lparr>com_hr = 0\<rparr>"
    by (rule addref_funpow_dispatcher[OF z]) simp
  then have d: "com_dispatcher ?s = Some \<lparr>com_hr = 0\<rparr>"
    by simp
  from c d have "registry_inv ?s"
    by (simp add: registry_inv_def word_gt_0)
  moreover from c d have "\<not> registry_inv (com_dispatcher_addref 0 ?s)"
    by (simp add: registry_inv_def addref_refcount addref_dispatcher)
  moreover have "registry_inv initial_registry \<and>
      com_dispatcher_refcount (com_dispatcher_release initial_registry) = 4294967295 \<and>
      com_dispatcher (com_dispatcher_release initial_registry) = None \<and>
      \<not> registry_inv (com_dispatcher_release initial_registry)"
    by (simp add: registry_inv_def initial_registry_def release_refcount release_dispatcher
        word_gt_0)
  ultimately show ?thesis by blast
qed

text \<open>
  Claim C4. An error raised by a dispatched callable is to reach the caller of \<open>dispatch\<close>,
  and the worker is to stay ready. The code does not always deliver the error. First, a
  single caller dispatches a callable that throws on a dispatcher that has just been
  constructed, and takes \<open>processing_mutex\<close> before \<open>threadProc\<close> does (the interleaving of
  claim C1). The worker ends inside \<open>wait\<close> with \<open>running\<close> set; the callable has not run,
  so its exception exists nowhere; the caller is in \<open>result.wait()\<close>, and neither the worker
  nor any caller can move. Second, on a dispatcher whose worker waits, a second call takes
  the lock after the call of the throwing callable has released it and before the woken
  worker has taken it (the interleaving of claim C2): the worker runs the second callable
  only, and the throwing one is lost in the same way. The second half of the claim holds:
  failing work does not harm the worker, since \<open>packaged_task\<close> keeps the exception in the
  shared state of the future (lemma \<open>throwing_task_leaves_worker_alive\<close>); and on a
  dispatcher that is ready, with no other caller, the exception does reach the caller and
  the dispatcher is ready again (lemma \<open>dispatch_call_ready\<close>).
\<close>

theorem raised_error_can_be_lost:
  "(\<exists>s. run (caller_first 0) raises_x = Some s \<and>
        clients s 0 = Some \<lparr>pc = Waiting, task = Call (\<lambda>b. (Inl ''x'', b)), future = None\<rparr> \<and>
        dispatch_thread s = Blocked \<and> running s \<and> history s = [Setup 0] \<and>
        step Worker s = None \<and> (\<forall>c. step (Caller c) s = None) \<and> step Spurious s \<noteq> None) \<and>
   (\<exists>s. run second_overtakes raises_x_and_other = Some s \<and>
        clients s 0 = Some \<lparr>pc = Waiting, task = Call (\<lambda>b. (Inl ''x'', b)), future = None\<rparr> \<and>
        clients s 1 = Some \<lparr>pc = Got (Value 1), task = Call (\<lambda>b. (Inr 1, b)), future = Some (Value 1)\<rparr> \<and>
        dispatch_thread s = Blocked \<and> running s \<and> history s = [Setup 0, Ran 1] \<and>
        step Worker s = None \<and> (\<forall>c. step (Caller c) s = None))"
proof (intro conjI)
  show "\<exists>s. run (caller_first 0) raises_x = Some s \<and>
        clients s 0 = Some \<lparr>pc = Waiting, task = Call (\<lambda>b. (Inl ''x'', b)), future = None\<rparr> \<and>
        dispatch_thread s = Blocked \<and> running s \<and> history s = [Setup 0] \<and>
        step Worker s = None \<and> (\<forall>c. step (Caller c) s = None) \<and> step Spurious s \<noteq> None"
    by (simp add: raises_x_def throws_x_def caller_first_def constructed_def submit_def step_defs)
  show "\<exists>s. run second_overtakes raises_x_and_other = Some s \<and>
        clients s 0 = Some \<lparr>pc = Waiting, task = Call (\<lambda>b. (Inl ''x'', b)), future = None\<rparr> \<and>
        clients s 1 = Some \<lparr>pc = Got (Value 1), task = Call (\<lambda>b. (Inr 1, b)), future = Some (Value 1)\<rparr> \<and>
        dispatch_thread s = Blocked \<and> running s \<and> history s = [Setup 0, Ran 1] \<and>
        step Worker s = None \<and> (\<forall>c. step (Caller c) s = None)"
    by (simp add: raises_x_and_other_def second_overtakes_def throws_x_def constructed_def
        submit_def step_defs)
qed


text \<open>
  Claim C6, as amended. An acquisition constructs a dispatcher (and starts its thread)
  exactly when the count is \<open>0\<close>, increments the count (as a \<open>uint32_t\<close>), and leaves a
  dispatcher in \<open>com_dispatcher\<close> whenever the invariant of the registry held before. \<open>N\<close>
  acquisitions from count \<open>0\<close>, for \<open>N\<close> from \<open>1\<close> to \<open>2^32 - 1\<close>, construct exactly one
  dispatcher and leave the count at \<open>N\<close>.
\<close>

theorem acquire_constructs_once:
  "constructions (com_dispatcher_addref hr s) =
     constructions s + (if com_dispatcher_refcount s = 0 then 1 else 0) \<and>
   com_dispatcher_refcount (com_dispatcher_addref hr s) = com_dispatcher_refcount s + 1 \<and>
   (registry_inv s \<longrightarrow> com_dispatcher (com_dispatcher_addref hr s) \<noteq> None) \<and>
   (com_dispatcher_refcount s = 0 \<longrightarrow> 0 < N \<longrightarrow> N < 2 ^ 32 \<longrightarrow>
      constructions ((com_dispatcher_addref hr ^^ N) s) = constructions s + 1 \<and>
      unat (com_dispatcher_refcount ((com_dispatcher_addref hr ^^ N) s)) = N)"
proof (intro conjI impI)
  assume z: "com_dispatcher_refcount s = 0" and N: "0 < N" "N < 2 ^ 32"
  from N obtain n where n: "N = Suc n" and "n < 2 ^ 32"
    by (cases N) simp_all
  with addref_funpow_constructions[OF z, of n hr]
  show "constructions ((com_dispatcher_addref hr ^^ N) s) = constructions s + 1"
    by simp
  have "com_dispatcher_refcount ((com_dispatcher_addref hr ^^ N) s) = (of_nat N :: 32 word)"
    using z by (simp only: addref_funpow_refcount) simp
  with N show "unat (com_dispatcher_refcount ((com_dispatcher_addref hr ^^ N) s)) = N"
    by (simp add: unat_of_nat)
qed (simp_all add: addref_constructions addref_refcount addref_available)

theorem acquire_constructs_once_witness:
  "registry_inv initial_registry \<and>
   com_dispatcher (com_dispatcher_addref 0 initial_registry) \<noteq> None \<and>
   com_dispatcher_refcount initial_registry = 0 \<and> (0::nat) < 3 \<and> (3::nat) < 2 ^ 32 \<and>
   constructions ((com_dispatcher_addref 0 ^^ 3) initial_registry) = constructions initial_registry + 1 \<and>
   unat (com_dispatcher_refcount ((com_dispatcher_addref 0 ^^ 3) initial_registry)) = 3"
  using acquire_constructs_once[of 0 initial_registry 3]
  by (simp add: registry_inv_initial) (simp add: initial_registry_def)

text \<open>
  Claim C6, as stated, fails for \<open>N = 2^32\<close>: the count is a \<open>uint32_t\<close> and is back at
  \<open>0\<close>, not at \<open>N\<close>.
\<close>

theorem acquire_count_wraps:
  "com_dispatcher_refcount ((com_dispatcher_addref 0 ^^ 4294967296) initial_registry) = 0 \<and>
   unat (com_dispatcher_refcount ((com_dispatcher_addref 0 ^^ 4294967296) initial_registry)) \<noteq> 4294967296"
  by (simp only: addref_funpow_refcount) (simp add: initial_registry_def)

text \<open>
  Claim C7. In every run of a dispatcher from its construction, whatever the callers and
  the schedule (spurious wake-ups included): the stop request is run by the worker like
  any unit of work and no unit of work runs after it; the worker thread exits only after a
  stop request has run, and after \<open>CoUninitialize\<close> when COM had been initialised; the
  destructor returns from \<open>join\<close> only after the thread has exited; the count of the
  registry is decremented only after the destructor has returned, and keeps its value until
  then.
\<close>

theorem shutdown_order:
  assumes "run \<sigma> (constructed hr b n ws) = Some s"
  shows "(\<forall>c c'. \<not> before (StopRan c) (Ran c') (history s)) \<and>
         (ThreadExit \<in> set (history s) \<longrightarrow>
            (\<exists>c. before (StopRan c) ThreadExit (history s)) \<and>
            (SUCCEEDED hr \<longrightarrow> before Teardown ThreadExit (history s))) \<and>
         (DtorReturn \<in> set (history s) \<longrightarrow> before ThreadExit DtorReturn (history s)) \<and>
         (CountDecrement \<in> set (history s) \<longrightarrow> before DtorReturn CountDecrement (history s)) \<and>
         refcount s = (if CountDecrement \<in> set (history s) then n - 1 else n)"
proof -
  from inv_run[OF shutdown_inv_constructed assms]
  have w: "worker_inv s" and ci: "clients_inv s" and hi: "history_inv n s"
    by (simp_all add: shutdown_inv_def)
  from hi have srt: "sorted (map rank (history s))"
    by (simp add: history_inv_def)
  from run_comInit[OF assms] have hr: "comInit s = hr"
    by (simp add: constructed_def)
  have exited: "dispatch_thread s = Exited" if "e \<in> set (history s)" and "2 < rank e" for e
  proof (rule ccontr)
    assume "dispatch_thread s \<noteq> Exited"
    from alive_rank_bound[OF w this] that show False by force
  qed
  have 1: "\<forall>c c'. \<not> before (StopRan c) (Ran c') (history s)"
    using srt by (simp add: not_before_sorted)
  have 2: "(\<exists>c. before (StopRan c) ThreadExit (history s)) \<and>
           (SUCCEEDED hr \<longrightarrow> before Teardown ThreadExit (history s))"
    if te: "ThreadExit \<in> set (history s)"
  proof -
    from exited[OF te] w hr obtain c where c: "StopRan c \<in> set (history s)"
      and td: "SUCCEEDED hr \<longrightarrow> Teardown \<in> set (history s)"
      by (auto simp: worker_inv_def)
    from before_sorted[OF srt c te] have "before (StopRan c) ThreadExit (history s)" by simp
    moreover from td before_sorted[OF srt _ te, of Teardown]
    have "SUCCEEDED hr \<longrightarrow> before Teardown ThreadExit (history s)" by simp
    ultimately show ?thesis by blast
  qed
  have 3: "before ThreadExit DtorReturn (history s)" if dr: "DtorReturn \<in> set (history s)"
  proof -
    from exited[OF dr] w have "ThreadExit \<in> set (history s)"
      by (simp add: worker_inv_def)
    from before_sorted[OF srt this dr] show ?thesis by simp
  qed
  have 4: "before DtorReturn CountDecrement (history s)" if cd: "CountDecrement \<in> set (history s)"
  proof -
    from hi cd obtain c cl where c: "clients s c = Some cl" "pc cl = Released"
      by (auto simp: history_inv_def)
    from clients_invD[OF ci c(1)] c(2) have "DtorReturn \<in> set (history s)"
      by (simp add: client_inv_def)
    from before_sorted[OF srt this cd] show ?thesis by simp
  qed
  from hi have 5: "refcount s = (if CountDecrement \<in> set (history s) then n - 1 else n)"
    by (simp add: history_inv_def)
  from 1 2 3 4 5 show ?thesis by blast
qed

theorem shutdown_order_witness:
  "\<exists>s. run destruction only_destroyed = Some s \<and>
       history s = [Setup 0, StopRan 0, Teardown, ThreadExit, DtorReturn, CountDecrement] \<and>
       SUCCEEDED 0 \<and>
       before (StopRan 0) ThreadExit (history s) \<and>
       before Teardown ThreadExit (history s) \<and>
       before ThreadExit DtorReturn (history s) \<and>
       before DtorReturn CountDecrement (history s) \<and>
       refcount s = 0"
proof -
  obtain s where r: "run destruction only_destroyed = Some s"
    and h: "history s = [Setup 0, StopRan 0, Teardown, ThreadExit, DtorReturn, CountDecrement]"
    and n: "refcount s = 0"
    using destruction_run by simp
  have ok: "SUCCEEDED 0" by (simp add: SUCCEEDED_def)
  from shutdown_order [OF r [unfolded only_destroyed_def]] h ok
  have "before Teardown ThreadExit (history s) \<and>
        before ThreadExit DtorReturn (history s) \<and>
        before DtorReturn CountDecrement (history s)"
    by simp
  moreover from h have "before (StopRan 0) ThreadExit (history s)" by simp
  ultimately show ?thesis using r h n ok by blast
qed



text \<open>
  Claim C9. An acquisition is to be matched by one release, also when no provider comes of
  it. \<open>init_enchant_provider\<close> has a branch for that, which releases when \<open>newProvider\<close> is
  null, but the function never returns null: its lambda returns a handle or throws. In both
  ways in which the function fails to produce a provider the reference is kept. First, on
  a new dispatcher, when the caller takes \<open>processing_mutex\<close> before \<open>threadProc\<close> does, the
  call of \<open>dispatch\<close> never returns: the count is \<open>1\<close>, there is no provider, nothing has
  been released, and neither the worker nor any caller can move. Second, when an allocation
  in the lambda fails, \<open>result.get()\<close> rethrows inside the \<open>noexcept\<close> function, which ends
  the process, again with a count of \<open>1\<close> and no release. Where the function returns, it
  returns a provider that holds the one reference (lemma \<open>init_returned\<close>);
  \<open>windows_provider_dispose\<close> on a ready dispatcher releases once (lemma
  \<open>dispose_releases_once\<close>), and the calls that make or use a dictionary leave the count as it
  is (lemma \<open>dispatch_call_ready\<close>).
\<close>

theorem init_can_leave_reference_unpaired:
  "(\<exists>s. init_enchant_provider no_platform True 0 (caller_first 0) 1 [] None = Some (Hangs, Some s) \<and>
        refcount s = 1 \<and> history s = [Setup 0] \<and> backend s = [] \<and> running s \<and>
        dispatch_thread s = Blocked \<and> step Worker s = None \<and> (\<forall>c. step (Caller c) s = None)) \<and>
   (\<exists>s. init_enchant_provider no_platform False 0 (worker_first 0) 1 [] None =
          Some (Terminates, Some s) \<and>
        refcount s = 1 \<and> history s = [Setup 0, Ran 0] \<and> backend s = []) \<and>
   (\<forall>p mem c \<sigma> c' \<sigma>' statics st.
      init_enchant_provider p mem c \<sigma> c' \<sigma>' statics \<noteq> Some (Returns None, st))"
proof (intro conjI allI)
  show "\<exists>s. init_enchant_provider no_platform True 0 (caller_first 0) 1 [] None = Some (Hangs, Some s) \<and>
        refcount s = 1 \<and> history s = [Setup 0] \<and> backend s = [] \<and> running s \<and>
        dispatch_thread s = Blocked \<and> step Worker s = None \<and> (\<forall>c. step (Caller c) s = None)"
    by (simp add: init_enchant_provider_def com_dispatcher_addref_on_def dispatch_call_def
        result_get_def new_provider_def no_platform_def caller_first_def constructed_def submit_def
        step_defs)
  show "\<exists>s. init_enchant_provider no_platform False 0 (worker_first 0) 1 [] None =
          Some (Terminates, Some s) \<and>
        refcount s = 1 \<and> history s = [Setup 0, Ran 0] \<and> backend s = []"
    by (simp add: init_enchant_provider_def com_dispatcher_addref_on_def dispatch_call_def
        result_get_def new_provider_def no_platform_def worker_first_def constructed_def submit_def
        step_defs)
  show "init_enchant_provider p mem c \<sigma> c' \<sigma>' statics \<noteq> Some (Returns None, st)"
    for p mem c \<sigma> c' \<sigma>' statics st
    by (rule init_never_returns_null)
qed

text \<open>
  Claim C10. \<open>kMaxUTF8WordLengthInBytes\<close> is \<open>512\<close>. For a length above it,
  \<open>copy_utf8_to_utf16\<close> returns null, so that for every dictionary and every word
  \<open>windows_dict_check\<close> returns \<open>-1\<close> and \<open>windows_dict_suggest\<close> returns null, and the log
  stays as it was: no method of the spell checker has been invoked.
\<close>

theorem overlong_word_rejected:
  assumes "512 < len" and "com_dispatcher s = Some d"
  shows "kMaxUTF8WordLengthInBytes = 512 \<and>
         copy_utf8_to_utf16 (MultiByteToWideChar p) word len = None \<and>
         windows_dict_check p s dict word len = Some (- 1, s) \<and>
         windows_dict_suggest p s dict word len = Some (None, s)"
proof -
  have k: "kMaxUTF8WordLengthInBytes = 512"
    by (simp add: kMaxUTF8WordLengthInBytes_def kMaxWordLength_def)
  with assms(1) have c: "copy_utf8_to_utf16 (MultiByteToWideChar p) word len = None"
    by (simp add: copy_utf8_to_utf16_too_long)
  have "windows_dict_check p s dict word len = Some (- 1, s)"
    by (simp add: windows_dict_check_def c dispatch_Some[OF assms(2)])
  moreover have "windows_dict_suggest p s dict word len = Some (None, s)"
    by (simp add: windows_dict_suggest_def c dispatch_Some[OF assms(2)])
  ultimately show ?thesis using k c by simp
qed

theorem overlong_word_rejected_witness:
  "(512::nat) < 513 \<and>
   com_dispatcher (com_dispatcher_addref 0 initial_registry) = Some \<lparr>com_hr = 0\<rparr> \<and>
   windows_dict_check no_platform (com_dispatcher_addref 0 initial_registry)
       \<lparr>dict_user_data = \<lparr>spellChecker = None\<rparr>\<rparr> (\<lambda>i. 97) 513 =
     Some (- 1, com_dispatcher_addref 0 initial_registry) \<and>
   windows_dict_suggest no_platform (com_dispatcher_addref 0 initial_registry)
       \<lparr>dict_user_data = \<lparr>spellChecker = None\<rparr>\<rparr> (\<lambda>i. 97) 513 =
     Some (None, com_dispatcher_addref 0 initial_registry)"
  using overlong_word_rejected
          [of 513 "com_dispatcher_addref 0 initial_registry" "\<lparr>com_hr = 0\<rparr>" no_platform
              "\<lambda>i. 97" "\<lparr>dict_user_data = \<lparr>spellChecker = None\<rparr>\<rparr>"]
  by (simp add: addref_dispatcher initial_registry_def)

end
